theory Spec2Isabelle
  imports Complex_Main
begin

section \<open>Data model (store/useStore.ts)\<close>

text \<open>
  A JavaScript \<^verbatim>\<open>number\<close> is a finite double, modelled as the real it denotes (NaN and
  the infinities are left out); the sum of two numbers is rounded, see \<open>double_add\<close>
  below. A JavaScript string is a \<^typ>\<open>string\<close>, and a value of type
  \<^verbatim>\<open>string | null\<close> or an optional field is an option. The coordinates of \<^verbatim>\<open>{ x: number; y: number }\<close> are the fields
  \<open>x_coord\<close> and \<open>y_coord\<close>; the field \<^verbatim>\<open>id\<close> of a tree node is \<open>node_id\<close>.
\<close>

record coords =
  x_coord :: real
  y_coord :: real

record TreeNode =
  node_id :: string
  label :: string
  description :: "string option"
  parentId :: "string option"
  position :: coords

record StoreState =
  selectedNode :: "TreeNode option"
  currentTreeId :: "string option"
  nodes :: "TreeNode list"
  isPanelOpen :: bool
  focusedNodeId :: "string option"
  breadcrumbPath :: "TreeNode list"

text \<open>
  JavaScript truthiness of a \<^verbatim>\<open>string | null\<close>: \<^verbatim>\<open>null\<close> and the empty string are
  falsy. The source tests \<^verbatim>\<open>currentTreeId\<close>, \<^verbatim>\<open>parentId\<close> and \<^verbatim>\<open>focusedNodeId\<close> this way.
\<close>

definition truthy :: "string option \<Rightarrow> bool" where
  "truthy s = (case s of None \<Rightarrow> False | Some v \<Rightarrow> v \<noteq> [])"

text \<open>\<^verbatim>\<open>nodes.find((n) => n.id === i)\<close>: the first node with that id.\<close>

definition find_node :: "TreeNode list \<Rightarrow> string \<Rightarrow> TreeNode option" where
  "find_node ns i = find (\<lambda>n. node_id n = i) ns"

section \<open>The addition of JavaScript numbers\<close>

text \<open>
  \<^verbatim>\<open>a + b\<close> on numbers is the exact sum rounded to the nearest double, ties to the
  even significand (IEEE 754 binary64). A double with \<open>2^e \<le> |v| < 2^(e+1)\<close> is a
  multiple of the quantum \<open>2^(e-52)\<close> of its binade. \<open>quantum k a 1\<close> finds the quantum
  \<open>q\<close> for the magnitude \<open>a\<close>, the one with \<open>2^52 * q \<le> a < 2^53 * q\<close>, by halving or
  doubling at most \<open>k\<close> times; 2200 steps cover every binade of the doubles. Sums in
  the subnormal range or beyond the largest double are not modelled (there \<open>to_double\<close>
  still rounds to 53 significant bits); adding 50 to a double never gives such a sum.
\<close>

fun quantum :: "nat \<Rightarrow> real \<Rightarrow> real \<Rightarrow> real" where
  "quantum 0 a q = q"
| "quantum (Suc k) a q =
     (if a < 2 ^ 52 * q then quantum k a (q / 2)
      else if 2 ^ 53 * q \<le> a then quantum k a (2 * q)
      else q)"

definition round_half_even :: "real \<Rightarrow> int" where
  "round_half_even r =
     (let f = \<lfloor>r\<rfloor>
      in if r - of_int f < 1 / 2 then f
         else if 1 / 2 < r - of_int f then f + 1
         else if even f then f else f + 1)"

definition to_double :: "real \<Rightarrow> real" where
  "to_double v =
     (if v = 0 then 0
      else let q = quantum 2200 \<bar>v\<bar> 1 in q * of_int (round_half_even (v / q)))"

definition double_add :: "real \<Rightarrow> real \<Rightarrow> real" where
  "double_add a b = to_double (a + b)"

section \<open>Tree Store (store/useStore.ts)\<close>

text \<open>
  The remote store is a parameter: \<open>remote treeId nodes\<close> is the \<^verbatim>\<open>error\<close> of the
  \<^verbatim>\<open>update({ nodes }).eq('id', currentTreeId)\<close> call, \<open>None\<close> when the write succeeds.
\<close>

type_synonym remote = "string \<Rightarrow> TreeNode list \<Rightarrow> string option"

text \<open>
  How an operation ends: it returns normally (\<open>Done\<close>), it logs with
  \<^verbatim>\<open>console.error\<close> and returns without touching the state (\<open>Aborted\<close>), or it
  throws (\<open>Raised\<close>). \<open>StackExhausted\<close> is the \<^verbatim>\<open>RangeError\<close> of a recursion deeper
  than the call stack allows.
\<close>

datatype abort_reason = NoCurrentTree | ParentNotFound | CircularReference

datatype failure = PersistenceError string | StackExhausted

datatype outcome = Done | Aborted abort_reason | Raised failure

definition saveTreeToSupabase :: "remote \<Rightarrow> StoreState \<Rightarrow> string option" where
  "saveTreeToSupabase rem st =
     (case currentTreeId st of
        None \<Rightarrow> None
      | Some t \<Rightarrow> if t = [] then None else rem t (nodes st))"

text \<open>
  The tail shared by every mutation: \<^verbatim>\<open>set({ nodes: updatedNodes })\<close>, then
  \<^verbatim>\<open>try { await get().saveTreeToSupabase() } catch (err) { set({ nodes }); throw err }\<close>,
  where \<^verbatim>\<open>nodes\<close> is the array read at the start of the operation.
\<close>

definition persist_or_rollback :: "remote \<Rightarrow> StoreState \<Rightarrow> TreeNode list \<Rightarrow> StoreState \<times> outcome" where
  "persist_or_rollback rem st updatedNodes =
     (let st' = st\<lparr>nodes := updatedNodes\<rparr>
      in case saveTreeToSupabase rem st' of
           None \<Rightarrow> (st', Done)
         | Some err \<Rightarrow> (st'\<lparr>nodes := nodes st\<rparr>, Raised (PersistenceError err)))"

text \<open>The label \<^verbatim>\<open>'\<dots>'\<close> of a new node: the UTF-8 bytes of the three Chinese characters
  U+65B0 U+7BC0 U+9EDE ("new node") of useStore.ts line 122.\<close>

definition new_node_label :: string where
  "new_node_label = [CHR 0xE6, CHR 0x96, CHR 0xB0, CHR 0xE7, CHR 0xAF, CHR 0x80,
                     CHR 0xE9, CHR 0xBB, CHR 0x9E]"

text \<open>\<open>newId\<close> is the value \<^verbatim>\<open>crypto.randomUUID()\<close> returns.\<close>

definition addNode :: "remote \<Rightarrow> string \<Rightarrow> StoreState \<Rightarrow> string \<Rightarrow> StoreState \<times> outcome" where
  "addNode rem newId st pid =
     (if \<not> truthy (currentTreeId st) then (st, Aborted NoCurrentTree)
      else case find_node (nodes st) pid of
             None \<Rightarrow> (st, Aborted ParentNotFound)
           | Some parentNode \<Rightarrow>
               (let offset = 50;
                    newNode = \<lparr>node_id = newId, label = new_node_label, description = None,
                               parentId = Some pid,
                               position = \<lparr>x_coord = double_add (x_coord (position parentNode)) offset,
                                           y_coord = double_add (y_coord (position parentNode)) offset\<rparr>\<rparr>
                in persist_or_rollback rem st (nodes st @ [newNode])))"

text \<open>
  \<^verbatim>\<open>findChildren\<close> recurses once per level of the subtree and has no cycle guard. The
  first argument bounds the depth of the recursion: \<open>None\<close> is the call that does not
  return (the stack is exhausted).
\<close>

fun findChildren :: "nat \<Rightarrow> TreeNode list \<Rightarrow> string \<Rightarrow> string list option" where
  "findChildren 0 ns pid = None"
| "findChildren (Suc k) ns pid =
     map_option concat
       (those (map (\<lambda>node. if parentId node = Some pid
                             then map_option (\<lambda>cs. node_id node # cs) (findChildren k ns (node_id node))
                             else Some [])
                   ns))"

definition deleteNode :: "nat \<Rightarrow> remote \<Rightarrow> StoreState \<Rightarrow> string \<Rightarrow> StoreState \<times> outcome" where
  "deleteNode fuel rem st nodeId =
     (if \<not> truthy (currentTreeId st) then (st, Aborted NoCurrentTree)
      else case findChildren fuel (nodes st) nodeId of
             None \<Rightarrow> (st, Raised StackExhausted)
           | Some children \<Rightarrow>
               (let nodesToDelete = set (nodeId # children)
                in persist_or_rollback rem st
                     (filter (\<lambda>node. node_id node \<notin> nodesToDelete) (nodes st))))"

definition updateNodeLabel :: "remote \<Rightarrow> StoreState \<Rightarrow> string \<Rightarrow> string \<Rightarrow> StoreState \<times> outcome" where
  "updateNodeLabel rem st nodeId newLabel =
     (if \<not> truthy (currentTreeId st) then (st, Aborted NoCurrentTree)
      else persist_or_rollback rem st
             (map (\<lambda>node. if node_id node = nodeId then node\<lparr>label := newLabel\<rparr> else node)
                  (nodes st)))"

text \<open>\<^verbatim>\<open>newDescription || undefined\<close>: the empty string is stored as absent.\<close>

definition updateNodeDescription :: "remote \<Rightarrow> StoreState \<Rightarrow> string \<Rightarrow> string \<Rightarrow> StoreState \<times> outcome" where
  "updateNodeDescription rem st nodeId newDescription =
     (if \<not> truthy (currentTreeId st) then (st, Aborted NoCurrentTree)
      else persist_or_rollback rem st
             (map (\<lambda>node. if node_id node = nodeId
                           then node\<lparr>description :=
                                       (if newDescription = [] then None else Some newDescription)\<rparr>
                           else node)
                  (nodes st)))"

text \<open>
  \<^verbatim>\<open>isAncestor(ancestorId, descendantId)\<close> walks up from \<open>descendantId\<close> by recursion,
  again without a cycle guard; the first argument bounds the depth.
\<close>

fun isAncestor :: "nat \<Rightarrow> TreeNode list \<Rightarrow> string \<Rightarrow> string \<Rightarrow> bool option" where
  "isAncestor 0 ns ancestorId descendantId = None"
| "isAncestor (Suc k) ns ancestorId descendantId =
     (case find_node ns descendantId of
        None \<Rightarrow> Some False
      | Some descendant \<Rightarrow>
          (case parentId descendant of
             None \<Rightarrow> Some False
           | Some p \<Rightarrow> if p = [] then Some False
                       else if p = ancestorId then Some True
                       else isAncestor k ns ancestorId p))"

definition reparentNode :: "nat \<Rightarrow> remote \<Rightarrow> StoreState \<Rightarrow> string \<Rightarrow> string \<Rightarrow> StoreState \<times> outcome" where
  "reparentNode fuel rem st nodeId newParentId =
     (if \<not> truthy (currentTreeId st) then (st, Aborted NoCurrentTree)
      else case isAncestor fuel (nodes st) nodeId newParentId of
             None \<Rightarrow> (st, Raised StackExhausted)
           | Some True \<Rightarrow> (st, Aborted CircularReference)
           | Some False \<Rightarrow>
               persist_or_rollback rem st
                 (map (\<lambda>node. if node_id node = nodeId then node\<lparr>parentId := Some newParentId\<rparr>
                               else node)
                      (nodes st)))"

definition onNodeDragStop :: "remote \<Rightarrow> StoreState \<Rightarrow> string \<Rightarrow> coords \<Rightarrow> StoreState \<times> outcome" where
  "onNodeDragStop rem st nodeId pos =
     (if \<not> truthy (currentTreeId st) then (st, Aborted NoCurrentTree)
      else persist_or_rollback rem st
             (map (\<lambda>node. if node_id node = nodeId then node\<lparr>position := pos\<rparr> else node)
                  (nodes st)))"

section \<open>Derived views (app/components/LearningTree.tsx)\<close>

definition getFocusedNodes :: "string \<Rightarrow> TreeNode list \<Rightarrow> TreeNode list" where
  "getFocusedNodes focusNodeId allNodes =
     (if focusNodeId = [] then allNodes
      else case find_node allNodes focusNodeId of
             None \<Rightarrow> allNodes
           | Some focusNode \<Rightarrow>
               focusNode # filter (\<lambda>n. parentId n = Some focusNodeId) allNodes)"

definition getDefaultFocusedNodes :: "TreeNode list \<Rightarrow> TreeNode list" where
  "getDefaultFocusedNodes allNodes =
     (if length allNodes = 0 then []
      else case find (\<lambda>n. parentId n = None) allNodes of
             None \<Rightarrow> allNodes
           | Some rootNode \<Rightarrow>
               rootNode # filter (\<lambda>n. parentId n = Some (node_id rootNode)) allNodes)"

text \<open>
  \<^verbatim>\<open>effectiveData\<close>, the focused view of the spec:
  \<^verbatim>\<open>focusedNodeId ? getFocusedNodes(focusedNodeId, allNodes) : getDefaultFocusedNodes(allNodes)\<close>.
\<close>

definition focusedView :: "string option \<Rightarrow> TreeNode list \<Rightarrow> TreeNode list" where
  "focusedView f allNodes =
     (case f of
        None \<Rightarrow> getDefaultFocusedNodes allNodes
      | Some i \<Rightarrow> if i = [] then getDefaultFocusedNodes allNodes else getFocusedNodes i allNodes)"

text \<open>
  The \<^verbatim>\<open>while (currentNode && currentNode.parentId)\<close> loop of
  \<^verbatim>\<open>calculateBreadcrumbPath\<close>: \<open>cur\<close> is \<^verbatim>\<open>currentNode\<close>, \<open>path\<close> the array built by
  \<^verbatim>\<open>unshift\<close>. The loop has no bound of its own; the first argument counts the tests of
  its condition, and \<open>None\<close> is the loop that is still running when they are used up.
\<close>

fun breadcrumb_loop :: "nat \<Rightarrow> TreeNode list \<Rightarrow> TreeNode option \<Rightarrow> TreeNode list \<Rightarrow> TreeNode list option" where
  "breadcrumb_loop 0 allNodes cur path = None"
| "breadcrumb_loop (Suc k) allNodes None path = Some path"
| "breadcrumb_loop (Suc k) allNodes (Some currentNode) path =
     (case parentId currentNode of
        None \<Rightarrow> Some path
      | Some p \<Rightarrow> if p = [] then Some path
                  else (case find_node allNodes p of
                          Some parent \<Rightarrow> breadcrumb_loop k allNodes (Some parent) (parent # path)
                        | None \<Rightarrow> Some path))"

definition calculateBreadcrumbPath :: "nat \<Rightarrow> string \<Rightarrow> TreeNode list \<Rightarrow> TreeNode list option" where
  "calculateBreadcrumbPath fuel nodeId allNodes =
     (case breadcrumb_loop fuel allNodes (find_node allNodes nodeId) [] of
        None \<Rightarrow> None
      | Some path \<Rightarrow>
          (case find_node allNodes nodeId of
             Some targetNode \<Rightarrow> Some (path @ [targetNode])
           | None \<Rightarrow> Some path))"

section \<open>Layout adapter: rectangle overlap (LearningTree.tsx)\<close>

text \<open>
  The part of a React Flow \<^verbatim>\<open>Node\<close> that \<^verbatim>\<open>isNodeIntersecting\<close> reads: its position
  and its optional measured width and height.
\<close>

record FlowNode =
  flow_id :: string
  flow_position :: coords
  width :: "real option"
  height :: "real option"

definition nodeWidth :: real where
  "nodeWidth = 80"

definition nodeHeight :: real where
  "nodeHeight = 80"

text \<open>\<^verbatim>\<open>w || d\<close> on an optional number: \<^verbatim>\<open>undefined\<close> and \<open>0\<close> are falsy.\<close>

definition or_default :: "real option \<Rightarrow> real \<Rightarrow> real" where
  "or_default w d = (case w of None \<Rightarrow> d | Some v \<Rightarrow> if v = 0 then d else v)"

definition isNodeIntersecting :: "FlowNode \<Rightarrow> FlowNode \<Rightarrow> bool" where
  "isNodeIntersecting node1 node2 =
     (let node1Left = x_coord (flow_position node1);
          node1Right = double_add (x_coord (flow_position node1)) (or_default (width node1) nodeWidth);
          node1Top = y_coord (flow_position node1);
          node1Bottom = double_add (y_coord (flow_position node1)) (or_default (height node1) nodeHeight);
          node2Left = x_coord (flow_position node2);
          node2Right = double_add (x_coord (flow_position node2)) (or_default (width node2) nodeWidth);
          node2Top = y_coord (flow_position node2);
          node2Bottom = double_add (y_coord (flow_position node2)) (or_default (height node2) nodeHeight)
      in \<not> (node1Right < node2Left \<or> node1Left > node2Right \<or>
             node1Bottom < node2Top \<or> node1Top > node2Bottom))"

section \<open>Sequences of mutations\<close>

text \<open>
  One call of the store's interface. \<open>AddNode parentId newId\<close> carries the id that
  \<^verbatim>\<open>crypto.randomUUID()\<close> returns in that call.
\<close>

datatype mutation =
    AddNode string string
  | DeleteNode string
  | UpdateNodeLabel string string
  | UpdateNodeDescription string string
  | ReparentNode string string
  | OnNodeDragStop string coords

fun apply_mutation :: "nat \<Rightarrow> remote \<Rightarrow> StoreState \<Rightarrow> mutation \<Rightarrow> StoreState \<times> outcome" where
  "apply_mutation fuel rem st (AddNode pid newId) = addNode rem newId st pid"
| "apply_mutation fuel rem st (DeleteNode nodeId) = deleteNode fuel rem st nodeId"
| "apply_mutation fuel rem st (UpdateNodeLabel nodeId newLabel) = updateNodeLabel rem st nodeId newLabel"
| "apply_mutation fuel rem st (UpdateNodeDescription nodeId d) = updateNodeDescription rem st nodeId d"
| "apply_mutation fuel rem st (ReparentNode nodeId newParentId) = reparentNode fuel rem st nodeId newParentId"
| "apply_mutation fuel rem st (OnNodeDragStop nodeId pos) = onNodeDragStop rem st nodeId pos"

text \<open>
  The state after a sequence of calls, each with the answer of the remote store to it.
  A call that is aborted or rolled back leaves the state it found.
\<close>

fun run :: "nat \<Rightarrow> StoreState \<Rightarrow> (mutation \<times> remote) list \<Rightarrow> StoreState" where
  "run fuel st [] = st"
| "run fuel st ((m, rem) # ms) = run fuel (fst (apply_mutation fuel rem st m)) ms"

text \<open>A mutation that neither deletes nor reparents the node with id \<open>r\<close>, nor reuses \<open>r\<close>
  as the id of a new node.\<close>

fun spares :: "string \<Rightarrow> mutation \<Rightarrow> bool" where
  "spares r (AddNode pid newId) = (newId \<noteq> r)"
| "spares r (DeleteNode nodeId) = (nodeId \<noteq> r)"
| "spares r (ReparentNode nodeId newParentId) = (nodeId \<noteq> r)"
| "spares r m = True"

section \<open>The words of the specification\<close>

text \<open>The number of roots: nodes with \<^verbatim>\<open>parentId == null\<close>.\<close>

definition root_count :: "TreeNode list \<Rightarrow> nat" where
  "root_count ns = length (filter (\<lambda>n. parentId n = None) ns)"

text \<open>\<open>r\<close> is the id of the only root, and of no other node.\<close>

definition sole_root :: "string \<Rightarrow> TreeNode list \<Rightarrow> bool" where
  "sole_root r ns = (root_count ns = 1 \<and> (\<forall>n \<in> set ns. (node_id n = r) = (parentId n = None)))"

text \<open>
  The depth of the node with id \<open>i\<close>: the number of parent links from it to a node with
  \<^verbatim>\<open>parentId == null\<close>, when that node is reached in fewer than \<open>k\<close> links.
\<close>

fun depth :: "nat \<Rightarrow> TreeNode list \<Rightarrow> string \<Rightarrow> nat option" where
  "depth 0 ns i = None"
| "depth (Suc k) ns i =
     (case find_node ns i of
        None \<Rightarrow> None
      | Some n \<Rightarrow> (case parentId n of None \<Rightarrow> Some 0 | Some p \<Rightarrow> map_option Suc (depth k ns p)))"

text \<open>
  The invariants of the data model: ids are unique, exactly one node is a root, and the
  ancestor chain of every node ends at a root within a number of links bounded by the
  node count (so the parent links have no cycle).
\<close>

definition is_tree :: "TreeNode list \<Rightarrow> bool" where
  "is_tree ns =
     (distinct (map node_id ns) \<and> root_count ns = 1 \<and>
      (\<forall>n \<in> set ns. depth (length ns) ns (node_id n) \<noteq> None))"

text \<open>The parent links as a relation from a node's id to its parent's id, and the
  transitive descendants of \<open>a\<close>: the ids from which \<open>a\<close> is reached by one or more links.\<close>

definition parent_rel :: "TreeNode list \<Rightarrow> (string \<times> string) set" where
  "parent_rel ns = {(node_id c, p) | c p. c \<in> set ns \<and> parentId c = Some p}"

definition descendants :: "TreeNode list \<Rightarrow> string \<Rightarrow> string set" where
  "descendants ns a = {c. (c, a) \<in> (parent_rel ns)\<^sup>+}"

text \<open>
  The links the upward walks of the code follow: from a node to the node that its
  non-empty \<^verbatim>\<open>parentId\<close> resolves to. The chain of links from the node with id
  \<open>nodeId\<close> runs into a cycle when it reaches a node that leads back to itself.
\<close>

definition walk_link :: "TreeNode list \<Rightarrow> (TreeNode \<times> TreeNode) set" where
  "walk_link ns = {(c, c'). \<exists>p. parentId c = Some p \<and> p \<noteq> [] \<and> find_node ns p = Some c'}"

definition walk_meets_cycle :: "TreeNode list \<Rightarrow> string \<Rightarrow> bool" where
  "walk_meets_cycle ns nodeId =
     (\<exists>c0 c. find_node ns nodeId = Some c0 \<and> (c0, c) \<in> (walk_link ns)\<^sup>* \<and> (c, c) \<in> (walk_link ns)\<^sup>+)"

text \<open>A sequence of nodes in which each element is the parent of the next.\<close>

fun parent_chain :: "TreeNode list \<Rightarrow> bool" where
  "parent_chain (p # c # rest) = (parentId c = Some (node_id p) \<and> parent_chain (c # rest))"
| "parent_chain path = True"

section \<open>Example data\<close>

text \<open>The scenario of the specification: a root with the children \<open>a\<close> and \<open>b\<close>, and
  \<open>c\<close> under \<open>a\<close>.\<close>

definition mk_node :: "string \<Rightarrow> string option \<Rightarrow> real \<Rightarrow> real \<Rightarrow> TreeNode" where
  "mk_node i p px py =
     \<lparr>node_id = i, label = i, description = None, parentId = p,
      position = \<lparr>x_coord = px, y_coord = py\<rparr>\<rparr>"

definition tree4 :: "TreeNode list" where
  "tree4 = [mk_node ''root'' None 0 0, mk_node ''a'' (Some ''root'') 300 0,
            mk_node ''b'' (Some ''root'') 300 180, mk_node ''c'' (Some ''a'') 600 0]"

text \<open>A node set in which the node \<open>c\<close> hangs under a node whose id is the empty string.\<close>

definition empty_id_tree :: "TreeNode list" where
  "empty_id_tree = [mk_node ''root'' None 0 0, mk_node [] (Some ''root'') 300 0,
                    mk_node ''c'' (Some []) 600 0]"

text \<open>A node set whose only node names itself as its parent.\<close>

definition self_parent :: "TreeNode list" where
  "self_parent = [mk_node ''a'' (Some ''a'') 0 0]"

text \<open>Two nodes that name each other as parent, one of them with the empty string as
  its id.\<close>

definition empty_id_cycle :: "TreeNode list" where
  "empty_id_cycle = [mk_node ''x'' (Some []) 0 0, mk_node [] (Some ''x'') 0 0]"

text \<open>A node set that already holds a node with the id of a version 4 UUID.\<close>

definition uuid_tree :: "TreeNode list" where
  "uuid_tree = [mk_node ''root'' None 0 0,
                mk_node ''3b241101-e2bb-4255-8caf-4136c566a962'' (Some ''root'') 50 50]"

text \<open>A root far to the right, at \<open>x = 10^17\<close>, where neighbouring doubles are 16 apart.\<close>

definition far_tree :: "TreeNode list" where
  "far_tree = [mk_node ''root'' None (10 ^ 17) 0]"

definition store_of :: "TreeNode list \<Rightarrow> StoreState" where
  "store_of ns =
     \<lparr>selectedNode = None, currentTreeId = Some ''t1'', nodes = ns, isPanelOpen = False,
      focusedNodeId = None, breadcrumbPath = []\<rparr>"

definition remote_ok :: remote where
  "remote_ok t ns = None"

definition remote_down :: remote where
  "remote_down t ns = Some ''offline''"

section \<open>Theorems\<close>

subsection \<open>Lookups, persistence and collected results\<close>

lemma those_map:
  "those (map f xs) = (if \<forall>x\<in>set xs. f x \<noteq> None then Some (map (\<lambda>x. the (f x)) xs) else None)"
  by (induction xs) (auto split: option.splits)

lemma find_node_Some: "find_node ns i = Some n \<Longrightarrow> n \<in> set ns \<and> node_id n = i"
  unfolding find_node_def by (induction ns) (auto split: if_splits)

lemma find_node_None: "find_node ns i = None \<longleftrightarrow> i \<notin> node_id ` set ns"
  unfolding find_node_def by (induction ns) auto

lemma find_node_distinct:
  "distinct (map node_id ns) \<Longrightarrow> c \<in> set ns \<Longrightarrow> find_node ns (node_id c) = Some c"
  unfolding find_node_def by (induction ns) (auto simp: image_iff)

lemma map_unresolved:
  "find_node ns n = None \<Longrightarrow> map (\<lambda>node. if node_id node = n then g node else node) ns = ns"
  by (rule map_idI) (auto simp: find_node_None)

lemma persist_ok:
  "saveTreeToSupabase rem (st\<lparr>nodes := ns'\<rparr>) = None \<Longrightarrow>
   persist_or_rollback rem st ns' = (st\<lparr>nodes := ns'\<rparr>, Done)"
  by (simp add: persist_or_rollback_def)

lemma persist_fail:
  "saveTreeToSupabase rem (st\<lparr>nodes := ns'\<rparr>) = Some e \<Longrightarrow>
   persist_or_rollback rem st ns' = (st, Raised (PersistenceError e))"
  by (simp add: persist_or_rollback_def)

lemma persist_same:
  "persist_or_rollback rem st (nodes st) =
     (st, case saveTreeToSupabase rem st of None \<Rightarrow> Done | Some e \<Rightarrow> Raised (PersistenceError e))"
  by (simp add: persist_or_rollback_def split: option.splits)

lemma persist_nodes:
  "nodes (fst (persist_or_rollback rem st ns')) = ns' \<or>
   nodes (fst (persist_or_rollback rem st ns')) = nodes st"
  by (simp add: persist_or_rollback_def Let_def split: option.splits)

lemma save_accepting:
  "(\<And>t ns'. rem t ns' = None) \<Longrightarrow> saveTreeToSupabase rem st = None"
  by (simp add: saveTreeToSupabase_def split: option.splits)

subsection \<open>Depth, trees and descendants\<close>

lemma depth_less: "depth k ns i = Some d \<Longrightarrow> d < k"
  by (induction k arbitrary: i d) (auto split: option.splits)

lemma depth_mono: "depth k ns i = Some d \<Longrightarrow> k \<le> k' \<Longrightarrow> depth k' ns i = Some d"
proof (induction k arbitrary: k' i d)
  case 0
  then show ?case by simp
next
  case (Suc k)
  from Suc.prems(2) obtain j where k': "k' = Suc j" and kj: "k \<le> j" by (cases k') auto
  from Suc.prems(1) obtain n where n: "find_node ns i = Some n"
    by (auto split: option.splits)
  show ?case
  proof (cases "parentId n")
    case None
    with n Suc.prems(1) show ?thesis by (simp add: k')
  next
    case (Some p)
    with n Suc.prems(1) obtain d' where d': "depth k ns p = Some d'" "d = Suc d'"
      by auto
    from Suc.IH[OF d'(1) kj] n Some d'(2) show ?thesis by (simp add: k')
  qed
qed

lemma depth_found:
  assumes "depth K ns i = Some d"
  obtains c where "find_node ns i = Some c"
  using assms by (cases K) (auto split: option.splits)

lemma depth_0_root:
  assumes "depth K ns i = Some 0" and "find_node ns i = Some c"
  shows "parentId c = None"
  using assms by (cases K) (auto split: option.splits)

lemma depth_Suc_cases:
  assumes "depth K ns i = Some (Suc d)" and "find_node ns i = Some c"
  obtains p K' where "K = Suc K'" "parentId c = Some p" "depth K' ns p = Some d"
  using assms by (cases K) (auto split: option.splits)

lemma tree_present_depth:
  "is_tree ns \<Longrightarrow> a \<in> node_id ` set ns \<Longrightarrow> \<exists>d. depth (length ns) ns a = Some d"
  by (auto simp: is_tree_def)

lemma tree_child_depth:
  assumes t: "is_tree ns" and c: "c \<in> set ns" "parentId c = Some a"
    and a: "depth (length ns) ns a = Some d"
  shows "depth (length ns) ns (node_id c) = Some (Suc d)"
proof -
  from t c(1) obtain dc where dc: "depth (length ns) ns (node_id c) = Some dc"
    by (auto simp: is_tree_def)
  then obtain k where k: "length ns = Suc k" by (cases "length ns") auto
  from t c(1) have f: "find_node ns (node_id c) = Some c"
    by (simp add: is_tree_def find_node_distinct)
  from dc f c(2) obtain d' where d': "depth k ns a = Some d'" "dc = Suc d'"
    by (auto simp: k)
  from depth_mono[OF d'(1), of "length ns"] a have "d' = d" by (simp add: k)
  with dc d'(2) show ?thesis by simp
qed

lemma tree_parent_depth:
  assumes t: "is_tree ns" and m: "m \<in> set ns" "parentId m = Some a"
  shows "\<exists>d. depth (length ns) ns a = Some d \<and> depth (length ns) ns (node_id m) = Some (Suc d)"
proof -
  from t m(1) obtain dm where dm: "depth (length ns) ns (node_id m) = Some dm"
    by (auto simp: is_tree_def)
  then obtain k where k: "length ns = Suc k" by (cases "length ns") auto
  from t m(1) have f: "find_node ns (node_id m) = Some m"
    by (simp add: is_tree_def find_node_distinct)
  from dm f m(2) obtain d where d: "depth k ns a = Some d" "dm = Suc d" by (auto simp: k)
  from depth_mono[OF d(1), of "length ns"] have "depth (length ns) ns a = Some d" by (simp add: k)
  with dm d(2) show ?thesis by simp
qed

lemma parent_rel_iff:
  "(c, a) \<in> parent_rel ns \<longleftrightarrow> (\<exists>m \<in> set ns. node_id m = c \<and> parentId m = Some a)"
  unfolding parent_rel_def by auto

lemma descendants_unfold:
  "descendants ns a =
     (\<Union>c \<in> {c \<in> set ns. parentId c = Some a}. insert (node_id c) (descendants ns (node_id c)))"
proof (intro set_eqI iffI)
  fix x assume "x \<in> descendants ns a"
  then have "(x, a) \<in> (parent_rel ns)\<^sup>+" by (simp add: descendants_def)
  then show "x \<in> (\<Union>c \<in> {c \<in> set ns. parentId c = Some a}. insert (node_id c) (descendants ns (node_id c)))"
  proof (cases rule: trancl.cases)
    case r_into_trancl
    then show ?thesis by (auto simp: parent_rel_iff)
  next
    case (trancl_into_trancl m)
    then show ?thesis by (auto simp: parent_rel_iff descendants_def)
  qed
next
  fix x assume "x \<in> (\<Union>c \<in> {c \<in> set ns. parentId c = Some a}. insert (node_id c) (descendants ns (node_id c)))"
  then obtain c where c: "c \<in> set ns" "parentId c = Some a"
    and x: "x = node_id c \<or> x \<in> descendants ns (node_id c)" by auto
  from c have step: "(node_id c, a) \<in> parent_rel ns" by (auto simp: parent_rel_iff)
  from x show "x \<in> descendants ns a"
  proof
    assume "x = node_id c"
    with step show ?thesis by (auto simp: descendants_def)
  next
    assume "x \<in> descendants ns (node_id c)"
    then have "(x, node_id c) \<in> (parent_rel ns)\<^sup>+" by (simp add: descendants_def)
    with step show ?thesis unfolding descendants_def by (auto intro: trancl_into_trancl)
  qed
qed

lemma descendants_present: "descendants ns a \<subseteq> node_id ` set ns"
proof
  fix c assume "c \<in> descendants ns a"
  then have "(c, a) \<in> (parent_rel ns)\<^sup>+" by (simp add: descendants_def)
  then have "c \<in> Domain (parent_rel ns)" by (metis Domain.DomainI trancl_domain)
  then show "c \<in> node_id ` set ns" by (auto simp: parent_rel_iff)
qed

lemma tree_descendant_deeper:
  assumes t: "is_tree ns" and c: "c \<in> descendants ns a"
  shows "\<exists>dc da. depth (length ns) ns c = Some dc \<and> depth (length ns) ns a = Some da \<and> da < dc"
proof -
  from c have "(c, a) \<in> (parent_rel ns)\<^sup>+" by (simp add: descendants_def)
  then show ?thesis
  proof (induction rule: trancl_induct)
    case (base y)
    then obtain m where "m \<in> set ns" "node_id m = c" "parentId m = Some y"
      by (auto simp: parent_rel_iff)
    with tree_parent_depth[OF t, of m y] show ?case by auto
  next
    case (step y z)
    from step(2) obtain m where "m \<in> set ns" "node_id m = y" "parentId m = Some z"
      by (auto simp: parent_rel_iff)
    with tree_parent_depth[OF t, of m z] step(3) show ?case by auto
  qed
qed

lemma tree_not_own_descendant: "is_tree ns \<Longrightarrow> n \<notin> descendants ns n"
  using tree_descendant_deeper[of ns n n] by auto

lemma tree4_is_tree: "is_tree tree4"
  by (simp add: is_tree_def tree4_def mk_node_def root_count_def find_node_def)

lemma empty_id_tree_is_tree: "is_tree empty_id_tree"
  by (simp add: is_tree_def empty_id_tree_def mk_node_def root_count_def find_node_def)

subsection \<open>The recursion of deleteNode\<close>

lemma findChildren_set:
  "findChildren k ns a = Some ds \<Longrightarrow> set ds = descendants ns a"
proof (induction k arbitrary: a ds)
  case 0
  then show ?case by simp
next
  case (Suc k)
  let ?g = "\<lambda>node. if parentId node = Some a
                     then map_option (\<lambda>cs. node_id node # cs) (findChildren k ns (node_id node))
                     else Some []"
  from Suc.prems have all: "\<forall>x\<in>set ns. ?g x \<noteq> None"
    and ds: "ds = concat (map (\<lambda>x. the (?g x)) ns)"
    by (auto simp: those_map split: if_splits)
  have each: "set (the (?g c)) = (if parentId c = Some a then insert (node_id c) (descendants ns (node_id c)) else {})"
    if "c \<in> set ns" for c
  proof (cases "parentId c = Some a")
    case True
    with all that obtain cs where cs: "findChildren k ns (node_id c) = Some cs" by fastforce
    from Suc.IH[OF cs] cs True show ?thesis by simp
  next
    case False
    then show ?thesis by simp
  qed
  have "set ds = (\<Union>c\<in>set ns. set (the (?g c)))" by (simp add: ds)
  also have "\<dots> = (\<Union>c\<in>set ns. if parentId c = Some a then insert (node_id c) (descendants ns (node_id c)) else {})"
    using each by simp
  also have "\<dots> = descendants ns a"
    by (subst (2) descendants_unfold) (auto split: if_splits)
  finally show ?case .
qed

lemma findChildren_returns:
  "is_tree ns \<Longrightarrow> depth (length ns) ns a = Some d \<Longrightarrow> length ns \<le> d + k \<Longrightarrow>
   findChildren k ns a \<noteq> None"
proof (induction k arbitrary: a d)
  case 0
  from depth_less[OF 0(2)] 0(3) show ?case by simp
next
  case (Suc k)
  have "findChildren k ns (node_id c) \<noteq> None" if "c \<in> set ns" "parentId c = Some a" for c
  proof -
    from tree_child_depth[OF Suc.prems(1) that Suc.prems(2)]
    have "depth (length ns) ns (node_id c) = Some (Suc d)" .
    from Suc.IH[OF Suc.prems(1) this] Suc.prems(3) show ?thesis by simp
  qed
  then show ?case by (auto simp: those_map)
qed

lemma findChildren_no_children:
  "\<forall>m\<in>set ns. parentId m \<noteq> Some n \<Longrightarrow> findChildren (Suc k) ns n = Some []"
  by (simp add: those_map)

lemma length_filter_ids:
  assumes "distinct (map f xs)" "S \<subseteq> f ` set xs"
  shows "length (filter (\<lambda>x. f x \<in> S) xs) = card S"
proof -
  have "length (filter (\<lambda>x. f x \<in> S) xs) = length (filter (\<lambda>y. y \<in> S) (map f xs))"
    by (simp add: filter_map comp_def)
  also have "\<dots> = card ({y. y \<in> S} \<inter> set (map f xs))"
    using assms(1) by (rule distinct_length_filter)
  also have "{y. y \<in> S} \<inter> set (map f xs) = S" using assms(2) by auto
  finally show ?thesis .
qed

lemma length_filter_not_ids:
  assumes "distinct (map f xs)" "S \<subseteq> f ` set xs"
  shows "length (filter (\<lambda>x. f x \<notin> S) xs) = length xs - card S"
proof -
  have "length (filter (\<lambda>x. f x \<in> S) xs) + length (filter (\<lambda>x. \<not> f x \<in> S) xs) = length xs"
    by (rule sum_length_filter_compl)
  with length_filter_ids[OF assms] show ?thesis by simp
qed

subsection \<open>The root under each mutation\<close>

lemma sole_root_persist:
  assumes "sole_root r (nodes st)" and "sole_root r ns'"
  shows "sole_root r (nodes (fst (persist_or_rollback rem st ns')))"
  using persist_nodes[of rem st ns'] assms by (elim disjE) simp_all

lemma sole_root_append:
  "sole_root r ns \<Longrightarrow> node_id x \<noteq> r \<Longrightarrow> parentId x \<noteq> None \<Longrightarrow> sole_root r (ns @ [x])"
  by (simp add: sole_root_def root_count_def)

lemma sole_root_map:
  assumes "sole_root r ns"
    and "\<And>x. x \<in> set ns \<Longrightarrow> node_id (f x) = node_id x \<and> (parentId (f x) = None) = (parentId x = None)"
  shows "sole_root r (map f ns)"
proof -
  have "filter ((\<lambda>n. parentId n = None) \<circ> f) ns = filter (\<lambda>n. parentId n = None) ns"
    by (rule filter_cong) (simp_all add: assms(2))
  then have "root_count (map f ns) = root_count ns"
    by (simp add: root_count_def filter_map)
  with assms show ?thesis by (simp add: sole_root_def)
qed

lemma sole_root_filter:
  assumes "sole_root r ns" and "\<And>x. x \<in> set ns \<Longrightarrow> parentId x = None \<Longrightarrow> Q x"
  shows "sole_root r (filter Q ns)"
proof -
  have "filter (\<lambda>n. parentId n = None) (filter Q ns) = filter (\<lambda>n. parentId n = None) ns"
    unfolding filter_filter by (rule filter_cong) (auto simp: assms(2))
  then have "root_count (filter Q ns) = root_count ns" by (simp add: root_count_def)
  with assms(1) show ?thesis by (simp add: sole_root_def)
qed

lemma descendants_not_root:
  assumes "sole_root r ns" shows "r \<notin> descendants ns a"
proof
  assume "r \<in> descendants ns a"
  then have "(r, a) \<in> (parent_rel ns)\<^sup>+" by (simp add: descendants_def)
  then have "r \<in> Domain (parent_rel ns)" by (metis Domain.DomainI trancl_domain)
  then obtain m p where "m \<in> set ns" "node_id m = r" "parentId m = Some p"
    by (auto simp: parent_rel_iff)
  with assms show False by (auto simp: sole_root_def)
qed

lemma sole_root_addNode:
  assumes "sole_root r (nodes st)" and "newId \<noteq> r"
  shows "sole_root r (nodes (fst (addNode rem newId st pid)))"
proof (cases "truthy (currentTreeId st)")
  case False
  with assms(1) show ?thesis by (simp add: addNode_def)
next
  case True
  show ?thesis
  proof (cases "find_node (nodes st) pid")
    case None
    with assms(1) True show ?thesis by (simp add: addNode_def)
  next
    case (Some p)
    define x where "x = \<lparr>node_id = newId, label = new_node_label, description = None,
        parentId = Some pid,
        position = \<lparr>x_coord = double_add (x_coord (position p)) 50,
                    y_coord = double_add (y_coord (position p)) 50\<rparr>\<rparr>"
    have eq: "addNode rem newId st pid = persist_or_rollback rem st (nodes st @ [x])"
      using True Some by (simp add: addNode_def x_def)
    have "sole_root r (nodes st @ [x])"
      by (rule sole_root_append[OF assms(1)]) (simp_all add: x_def assms(2))
    from sole_root_persist[OF assms(1) this] show ?thesis by (simp only: eq)
  qed
qed

lemma sole_root_deleteNode:
  assumes "sole_root r (nodes st)" and "nodeId \<noteq> r"
  shows "sole_root r (nodes (fst (deleteNode fuel rem st nodeId)))"
proof (cases "truthy (currentTreeId st)")
  case False
  with assms(1) show ?thesis by (simp add: deleteNode_def)
next
  case True
  show ?thesis
  proof (cases "findChildren fuel (nodes st) nodeId")
    case None
    with assms(1) True show ?thesis by (simp add: deleteNode_def)
  next
    case (Some ds)
    define keep :: "TreeNode \<Rightarrow> bool" where "keep = (\<lambda>node. node_id node \<notin> set (nodeId # ds))"
    have eq: "deleteNode fuel rem st nodeId = persist_or_rollback rem st (filter keep (nodes st))"
      using True Some by (simp add: deleteNode_def keep_def)
    from findChildren_set[OF Some] descendants_not_root[OF assms(1)] have "r \<notin> set ds" by simp
    with assms have "sole_root r (filter keep (nodes st))"
      by (intro sole_root_filter) (auto simp: sole_root_def keep_def)
    from sole_root_persist[OF assms(1) this] show ?thesis by (simp only: eq)
  qed
qed

lemma sole_root_updateNodeLabel:
  assumes "sole_root r (nodes st)"
  shows "sole_root r (nodes (fst (updateNodeLabel rem st nodeId newLabel)))"
proof (cases "truthy (currentTreeId st)")
  case False
  with assms(1) show ?thesis by (simp add: updateNodeLabel_def)
next
  case True
  define f :: "TreeNode \<Rightarrow> TreeNode" where "f = (\<lambda>node. if node_id node = nodeId then node\<lparr>label := newLabel\<rparr> else node)"
  have eq: "updateNodeLabel rem st nodeId newLabel = persist_or_rollback rem st (map f (nodes st))"
    using True by (simp add: updateNodeLabel_def f_def)
  have "sole_root r (map f (nodes st))" by (rule sole_root_map[OF assms]) (simp add: f_def)
  from sole_root_persist[OF assms(1) this] show ?thesis by (simp only: eq)
qed

lemma sole_root_updateNodeDescription:
  assumes "sole_root r (nodes st)"
  shows "sole_root r (nodes (fst (updateNodeDescription rem st nodeId d)))"
proof (cases "truthy (currentTreeId st)")
  case False
  with assms(1) show ?thesis by (simp add: updateNodeDescription_def)
next
  case True
  define f :: "TreeNode \<Rightarrow> TreeNode" where "f = (\<lambda>node. if node_id node = nodeId
                     then node\<lparr>description := (if d = [] then None else Some d)\<rparr> else node)"
  have eq: "updateNodeDescription rem st nodeId d = persist_or_rollback rem st (map f (nodes st))"
    using True by (simp add: updateNodeDescription_def f_def)
  have "sole_root r (map f (nodes st))" by (rule sole_root_map[OF assms]) (simp add: f_def)
  from sole_root_persist[OF assms(1) this] show ?thesis by (simp only: eq)
qed

lemma sole_root_onNodeDragStop:
  assumes "sole_root r (nodes st)"
  shows "sole_root r (nodes (fst (onNodeDragStop rem st nodeId pos)))"
proof (cases "truthy (currentTreeId st)")
  case False
  with assms(1) show ?thesis by (simp add: onNodeDragStop_def)
next
  case True
  define f :: "TreeNode \<Rightarrow> TreeNode" where "f = (\<lambda>node. if node_id node = nodeId then node\<lparr>position := pos\<rparr> else node)"
  have eq: "onNodeDragStop rem st nodeId pos = persist_or_rollback rem st (map f (nodes st))"
    using True by (simp add: onNodeDragStop_def f_def)
  have "sole_root r (map f (nodes st))" by (rule sole_root_map[OF assms]) (simp add: f_def)
  from sole_root_persist[OF assms(1) this] show ?thesis by (simp only: eq)
qed

lemma sole_root_reparentNode:
  assumes "sole_root r (nodes st)" and "nodeId \<noteq> r"
  shows "sole_root r (nodes (fst (reparentNode fuel rem st nodeId newParentId)))"
proof (cases "truthy (currentTreeId st) \<and> isAncestor fuel (nodes st) nodeId newParentId = Some False")
  case False
  with assms(1) show ?thesis by (auto simp: reparentNode_def split: option.splits bool.splits)
next
  case True
  define f :: "TreeNode \<Rightarrow> TreeNode" where "f = (\<lambda>node. if node_id node = nodeId then node\<lparr>parentId := Some newParentId\<rparr> else node)"
  have eq: "reparentNode fuel rem st nodeId newParentId = persist_or_rollback rem st (map f (nodes st))"
    using True by (simp add: reparentNode_def f_def)
  have "sole_root r (map f (nodes st))"
    by (rule sole_root_map[OF assms(1)]) (use assms in \<open>auto simp: sole_root_def f_def\<close>)
  from sole_root_persist[OF assms(1) this] show ?thesis by (simp only: eq)
qed

lemma sole_root_step:
  "sole_root r (nodes st) \<Longrightarrow> spares r m \<Longrightarrow>
   sole_root r (nodes (fst (apply_mutation fuel rem st m)))"
  by (cases m)
     (simp_all add: sole_root_addNode sole_root_deleteNode sole_root_updateNodeLabel
        sole_root_updateNodeDescription sole_root_onNodeDragStop sole_root_reparentNode)

lemma sole_root_run:
  "sole_root r (nodes st) \<Longrightarrow> \<forall>x \<in> set ms. spares r (fst x) \<Longrightarrow>
   sole_root r (nodes (run fuel st ms))"
proof (induction ms arbitrary: st)
  case Nil
  then show ?case by simp
next
  case (Cons x ms)
  obtain m rem where x: "x = (m, rem)" by (cases x)
  from Cons.prems(2) have sp: "spares r m" and rest: "\<forall>x \<in> set ms. spares r (fst x)"
    by (simp_all add: x)
  from sole_root_step[OF Cons.prems(1) sp]
  have "sole_root r (nodes (fst (apply_mutation fuel rem st m)))" .
  from Cons.IH[OF this rest] show ?case by (simp add: x)
qed

lemma tree_sole_root:
  assumes "distinct (map node_id ns)" and "root_count ns = 1"
    and "rt \<in> set ns" and "parentId rt = None"
  shows "sole_root (node_id rt) ns"
proof -
  from assms(2) obtain x where x: "filter (\<lambda>n. parentId n = None) ns = [x]"
    by (auto simp: root_count_def length_Suc_conv)
  have only: "n = rt" if "n \<in> set ns" "parentId n = None" for n
  proof -
    from that have "n \<in> set (filter (\<lambda>n. parentId n = None) ns)" by simp
    moreover from assms(3,4) have "rt \<in> set (filter (\<lambda>n. parentId n = None) ns)" by simp
    ultimately show ?thesis unfolding x by simp
  qed
  have same: "n = rt" if "n \<in> set ns" "node_id n = node_id rt" for n
  proof -
    from assms(1) have "inj_on node_id (set ns)" by (simp add: distinct_map)
    from inj_onD[OF this that(2) that(1) assms(3)] show ?thesis .
  qed
  show ?thesis unfolding sole_root_def
  proof (intro conjI ballI)
    show "root_count ns = 1" by (rule assms(2))
  next
    fix n assume n: "n \<in> set ns"
    show "(node_id n = node_id rt) = (parentId n = None)"
    proof
      assume "node_id n = node_id rt"
      from same[OF n this] assms(4) show "parentId n = None" by simp
    next
      assume "parentId n = None"
      from only[OF n this] show "node_id n = node_id rt" by simp
    qed
  qed
qed

subsection \<open>C1: exactly one root\<close>

text \<open>
  C1, as the code has it. For every store state whose node set has unique ids and
  exactly one root, after any sequence of Tree Store mutations \<^emph>\<open>that neither delete nor
  reparent the root\<close> (and in which no new node is given the root's id), exactly one
  node has \<^verbatim>\<open>parentId == null\<close>. This holds whether each mutation succeeds, is aborted or
  is rolled back.
\<close>

theorem one_root_preserved:
  assumes "distinct (map node_id (nodes st))" and "root_count (nodes st) = 1"
    and "rt \<in> set (nodes st)" and "parentId rt = None"
    and "\<forall>x \<in> set ms. spares (node_id rt) (fst x)"
  shows "root_count (nodes (run fuel st ms)) = 1"
proof -
  from tree_sole_root[OF assms(1-4)] have "sole_root (node_id rt) (nodes st)" .
  from sole_root_run[OF this assms(5)] show ?thesis by (simp add: sole_root_def)
qed

theorem one_root_preserved_witness:
  "root_count (nodes (run 5 (store_of tree4)
     [(AddNode ''a'' ''n1'', remote_ok), (DeleteNode ''a'', remote_ok),
      (ReparentNode ''b'' ''root'', remote_down), (UpdateNodeLabel ''b'' ''x'', remote_ok)])) = 1"
proof -
  have h1: "distinct (map node_id (nodes (store_of tree4)))"
    by (simp add: store_of_def tree4_def mk_node_def)
  have h2: "root_count (nodes (store_of tree4)) = 1"
    by (simp add: store_of_def tree4_def mk_node_def root_count_def)
  have h3: "mk_node ''root'' None 0 0 \<in> set (nodes (store_of tree4))"
    by (simp add: store_of_def tree4_def)
  have h4: "parentId (mk_node ''root'' None 0 0) = None" by (simp add: mk_node_def)
  have h5: "\<forall>x \<in> set [(AddNode ''a'' ''n1'', remote_ok), (DeleteNode ''a'', remote_ok),
      (ReparentNode ''b'' ''root'', remote_down), (UpdateNodeLabel ''b'' ''x'', remote_ok)].
      spares (node_id (mk_node ''root'' None 0 0)) (fst x)"
    by (simp add: mk_node_def)
  from one_root_preserved[OF h1 h2 h3 h4 h5] show ?thesis .
qed

text \<open>
  The claim as stated, for every sequence of successful mutations, fails for
  \<^verbatim>\<open>deleteNode\<close> on the root, which the store does not guard: the call succeeds and
  leaves no node, hence no root.
\<close>

theorem one_root_counterexample:
  "root_count (nodes (store_of tree4)) = 1 \<and>
   deleteNode 5 remote_ok (store_of tree4) ''root'' = (store_of [], Done) \<and>
   root_count (nodes (store_of [])) = 0"
  by (simp add: deleteNode_def store_of_def tree4_def mk_node_def truthy_def remote_ok_def
        persist_or_rollback_def saveTreeToSupabase_def root_count_def eval_nat_numeral)

subsection \<open>C2: reparentNode and cycles\<close>

lemma isAncestor_sound:
  "isAncestor k ns a d = Some True \<Longrightarrow> d \<in> descendants ns a"
proof (induction k arbitrary: d)
  case 0
  then show ?case by simp
next
  case (Suc k)
  from Suc.prems obtain c p where c: "find_node ns d = Some c" and p: "parentId c = Some p"
    and rest: "p = a \<or> isAncestor k ns a p = Some True"
    by (auto split: option.splits if_splits)
  from find_node_Some[OF c] p have link: "(d, p) \<in> parent_rel ns" by (auto simp: parent_rel_iff)
  from rest show ?case
  proof
    assume "p = a"
    with link show ?thesis by (auto simp: descendants_def)
  next
    assume "isAncestor k ns a p = Some True"
    from Suc.IH[OF this] have "(p, a) \<in> (parent_rel ns)\<^sup>+" by (simp add: descendants_def)
    with link show ?thesis unfolding descendants_def by (auto intro: trancl_into_trancl2)
  qed
qed

lemma isAncestor_returns:
  "depth K ns d = Some dd \<Longrightarrow> dd < k \<Longrightarrow> isAncestor k ns a d \<noteq> None"
proof (induction dd arbitrary: d K k)
  case 0
  from 0(1) obtain c where c: "find_node ns d = Some c" by (rule depth_found)
  from depth_0_root[OF 0(1) c] have "parentId c = None" .
  moreover from 0(2) obtain k' where "k = Suc k'" by (cases k) auto
  ultimately show ?case using c by simp
next
  case (Suc dd)
  from Suc.prems(1) obtain c where c: "find_node ns d = Some c" by (rule depth_found)
  from Suc.prems(1) c obtain p K' where p: "parentId c = Some p" "depth K' ns p = Some dd"
    by (rule depth_Suc_cases)
  from Suc.prems(2) obtain k' where k: "k = Suc k'" "dd < k'" by (cases k) auto
  from Suc.IH[OF p(2) k(2)] c p(1) show ?case by (auto simp: k)
qed

lemma isAncestor_complete:
  assumes dist: "distinct (map node_id ns)" and ne: "\<forall>m\<in>set ns. parentId m \<noteq> Some []"
  shows "d \<in> descendants ns a \<Longrightarrow> depth K ns d = Some dd \<Longrightarrow> dd < k \<Longrightarrow>
         isAncestor k ns a d = Some True"
proof (induction dd arbitrary: d K k)
  case 0
  from 0(2) obtain c where c: "find_node ns d = Some c" by (rule depth_found)
  from depth_0_root[OF 0(2) c] have root: "parentId c = None" .
  from 0(1) have "d \<in> Domain (parent_rel ns)"
    unfolding descendants_def by (metis Domain.DomainI trancl_domain mem_Collect_eq)
  then obtain m z where m: "m \<in> set ns" "node_id m = d" "parentId m = Some z"
    by (auto simp: parent_rel_iff)
  from find_node_distinct[OF dist m(1)] m(2) c have "m = c" by simp
  with m(3) root show ?case by simp
next
  case (Suc dd)
  from Suc.prems(2) obtain c where c: "find_node ns d = Some c" by (rule depth_found)
  from Suc.prems(2) c obtain p K' where p: "parentId c = Some p" "depth K' ns p = Some dd"
    by (rule depth_Suc_cases)
  from find_node_Some[OF c] ne p(1) have "p \<noteq> []" by auto
  from Suc.prems(3) obtain k' where k: "k = Suc k'" "dd < k'" by (cases k) auto
  have step: "z = p" if "(d, z) \<in> parent_rel ns" for z
  proof -
    from that obtain m where m: "m \<in> set ns" "node_id m = d" "parentId m = Some z"
      by (auto simp: parent_rel_iff)
    from find_node_distinct[OF dist m(1)] m(2) c have "m = c" by simp
    with m(3) p(1) show ?thesis by simp
  qed
  from Suc.prems(1) have da: "(d, a) \<in> (parent_rel ns)\<^sup>+" by (simp add: descendants_def)
  have "p = a \<or> p \<in> descendants ns a"
  proof (rule converse_tranclE[OF da])
    assume "(d, a) \<in> parent_rel ns"
    from step[OF this] show ?thesis by simp
  next
    fix z assume z: "(d, z) \<in> parent_rel ns" "(z, a) \<in> (parent_rel ns)\<^sup>+"
    from step[OF z(1)] z(2) show ?thesis by (simp add: descendants_def)
  qed
  then show ?case
  proof
    assume "p = a"
    with c p(1) \<open>p \<noteq> []\<close> show ?thesis by (simp add: k)
  next
    assume "p \<in> descendants ns a"
    from Suc.IH[OF this p(2) k(2)] c p(1) \<open>p \<noteq> []\<close> show ?thesis by (simp add: k)
  qed
qed

text \<open>
  The two cases of C2 that the code gets right. In a tree in which no \<^verbatim>\<open>parentId\<close> is the
  empty string, reparenting a node under one of its descendants is rejected; and
  reparenting it under a present node that is not one of its descendants sets its
  \<^verbatim>\<open>parentId\<close>. The second case includes the node itself, which is never its own
  descendant in a tree.
\<close>

lemma reparentNode_rejects_descendant:
  assumes "is_tree (nodes st)" and "\<forall>m\<in>set (nodes st). parentId m \<noteq> Some []"
    and "p \<in> descendants (nodes st) n" and "truthy (currentTreeId st)"
    and "length (nodes st) \<le> fuel"
  shows "reparentNode fuel rem st n p = (st, Aborted CircularReference)"
proof -
  from assms(3) descendants_present have "p \<in> node_id ` set (nodes st)" by auto
  from tree_present_depth[OF assms(1) this] obtain dd
    where dd: "depth (length (nodes st)) (nodes st) p = Some dd" ..
  from depth_less[OF dd] assms(5) have "dd < fuel" by simp
  from assms(1) have "distinct (map node_id (nodes st))" by (simp add: is_tree_def)
  from isAncestor_complete[OF this assms(2,3) dd \<open>dd < fuel\<close>] assms(4)
  show ?thesis by (simp add: reparentNode_def)
qed

lemma reparentNode_sets_parent:
  assumes "is_tree (nodes st)" and "p \<in> node_id ` set (nodes st)"
    and "p \<notin> descendants (nodes st) n" and "truthy (currentTreeId st)"
    and "length (nodes st) \<le> fuel" and "\<And>t ns'. rem t ns' = None"
  shows "reparentNode fuel rem st n p =
           (st\<lparr>nodes := map (\<lambda>node. if node_id node = n then node\<lparr>parentId := Some p\<rparr> else node)
                              (nodes st)\<rparr>, Done)"
proof -
  from tree_present_depth[OF assms(1,2)] obtain dd
    where dd: "depth (length (nodes st)) (nodes st) p = Some dd" ..
  from depth_less[OF dd] assms(5) have "dd < fuel" by simp
  from isAncestor_returns[OF dd this] obtain b where b: "isAncestor fuel (nodes st) n p = Some b"
    by auto
  with isAncestor_sound[of fuel "nodes st" n p] assms(3) have "isAncestor fuel (nodes st) n p = Some False"
    by (cases b) auto
  moreover have "saveTreeToSupabase rem s = None" for s by (rule save_accepting) (rule assms(6))
  ultimately show ?thesis using assms(4) by (simp add: reparentNode_def persist_ok)
qed

text \<open>Hence, in every tree, \<^verbatim>\<open>reparentNode(n, n)\<close> on a present node is carried out.\<close>

lemma reparentNode_self:
  assumes "is_tree (nodes st)" and "n \<in> node_id ` set (nodes st)"
    and "truthy (currentTreeId st)" and "length (nodes st) \<le> fuel" and "\<And>t ns'. rem t ns' = None"
  shows "reparentNode fuel rem st n n =
           (st\<lparr>nodes := map (\<lambda>node. if node_id node = n then node\<lparr>parentId := Some n\<rparr> else node)
                              (nodes st)\<rparr>, Done)"
  by (rule reparentNode_sets_parent[OF assms(1,2) tree_not_own_descendant[OF assms(1)] assms(3,4,5)])

text \<open>
  C2. For every node set forming a tree and every pair of node ids \<open>n\<close>, \<open>p\<close> present
  in it, \<^verbatim>\<open>reparentNode(n, p)\<close> is to fail and leave the node set unchanged whenever \<open>p\<close>
  equals \<open>n\<close> or \<open>p\<close> is a descendant of \<open>n\<close>, and to set the \<^verbatim>\<open>parentId\<close> of \<open>n\<close> to
  \<open>p\<close> otherwise. The code breaks the first case: its cycle check \<^verbatim>\<open>isAncestor(n, p)\<close>
  only looks at the proper ancestors of \<open>p\<close>, so in the scenario tree
  \<^verbatim>\<open>reparentNode('a', 'a')\<close> is not rejected. It makes \<open>a\<close> its own parent, saves, and
  returns normally.
\<close>

theorem reparentNode_under_itself:
  "reparentNode 5 remote_ok (store_of tree4) ''a'' ''a''
     = (store_of [mk_node ''root'' None 0 0, mk_node ''a'' (Some ''a'') 300 0,
                  mk_node ''b'' (Some ''root'') 300 180, mk_node ''c'' (Some ''a'') 600 0], Done)"
  by (simp add: reparentNode_def store_of_def tree4_def mk_node_def find_node_def truthy_def
        remote_ok_def persist_or_rollback_def saveTreeToSupabase_def eval_nat_numeral)

subsection \<open>C3: deleteNode removes the node and its transitive descendants\<close>

text \<open>
  C3. For every node set forming a tree and every node id \<open>n\<close> present in it,
  \<^verbatim>\<open>deleteNode(n)\<close> (with a tree selected, a remote store that accepts the write, and a call
  stack at least as deep as the node count) removes exactly \<open>n\<close> and the transitive
  descendants of \<open>n\<close> and no other node, and the node count after the call is the count
  before it minus the cardinality of \<open>{n} \<union> descendants(n)\<close>.
\<close>

theorem deleteNode_removes_subtree:
  assumes "is_tree (nodes st)" and "n \<in> node_id ` set (nodes st)"
    and "truthy (currentTreeId st)" and "length (nodes st) \<le> fuel"
    and "\<And>t ns'. rem t ns' = None"
  shows "deleteNode fuel rem st n =
           (st\<lparr>nodes := filter (\<lambda>m. node_id m \<notin> insert n (descendants (nodes st) n)) (nodes st)\<rparr>, Done)
         \<and> length (filter (\<lambda>m. node_id m \<notin> insert n (descendants (nodes st) n)) (nodes st))
             = length (nodes st) - card (insert n (descendants (nodes st) n))"
proof -
  let ?ns = "nodes st"
  from tree_present_depth[OF assms(1,2)] obtain d where d: "depth (length ?ns) ?ns n = Some d" ..
  from assms(4) have "length ?ns \<le> d + fuel" by simp
  from findChildren_returns[OF assms(1) d this]
  obtain ds where ds: "findChildren fuel ?ns n = Some ds" by auto
  from findChildren_set[OF ds] have set_ds: "set ds = descendants ?ns n" .
  have sub: "insert n (descendants ?ns n) \<subseteq> node_id ` set ?ns"
    using assms(2) descendants_present by auto
  from assms(1) have dist: "distinct (map node_id ?ns)" by (simp add: is_tree_def)
  have "deleteNode fuel rem st n =
          persist_or_rollback rem st (filter (\<lambda>m. node_id m \<notin> insert n (descendants ?ns n)) ?ns)"
    using assms(3) ds set_ds by (simp add: deleteNode_def)
  also have "\<dots> = (st\<lparr>nodes := filter (\<lambda>m. node_id m \<notin> insert n (descendants ?ns n)) ?ns\<rparr>, Done)"
    by (rule persist_ok) (rule save_accepting, rule assms(5))
  finally show ?thesis using length_filter_not_ids[OF dist sub] by simp
qed

text \<open>The scenario of the specification: deleting \<open>a\<close> removes \<open>a\<close> and \<open>c\<close>.\<close>

theorem deleteNode_removes_subtree_witness:
  "is_tree (nodes (store_of tree4)) \<and> ''a'' \<in> node_id ` set (nodes (store_of tree4)) \<and>
   (deleteNode 4 remote_ok (store_of tree4) ''a'' =
      ((store_of tree4)\<lparr>nodes := filter (\<lambda>m. node_id m \<notin> insert ''a'' (descendants (nodes (store_of tree4)) ''a''))
                                   (nodes (store_of tree4))\<rparr>, Done) \<and>
    length (filter (\<lambda>m. node_id m \<notin> insert ''a'' (descendants (nodes (store_of tree4)) ''a''))
              (nodes (store_of tree4)))
      = length (nodes (store_of tree4)) - card (insert ''a'' (descendants (nodes (store_of tree4)) ''a''))) \<and>
   nodes (fst (deleteNode 4 remote_ok (store_of tree4) ''a''))
     = [mk_node ''root'' None 0 0, mk_node ''b'' (Some ''root'') 300 180]"
proof -
  have h1: "is_tree (nodes (store_of tree4))" by (simp add: store_of_def tree4_is_tree)
  have h2: "''a'' \<in> node_id ` set (nodes (store_of tree4))"
    by (simp add: store_of_def tree4_def mk_node_def)
  have h3: "truthy (currentTreeId (store_of tree4))" by (simp add: store_of_def truthy_def)
  have h4: "length (nodes (store_of tree4)) \<le> 4" by (simp add: store_of_def tree4_def)
  have h5: "remote_ok t ns' = None" for t ns' by (simp add: remote_ok_def)
  have ev: "nodes (fst (deleteNode 4 remote_ok (store_of tree4) ''a''))
     = [mk_node ''root'' None 0 0, mk_node ''b'' (Some ''root'') 300 180]"
    by (simp add: deleteNode_def store_of_def tree4_def mk_node_def truthy_def remote_ok_def
        persist_or_rollback_def saveTreeToSupabase_def eval_nat_numeral)
  note t = deleteNode_removes_subtree[of "store_of tree4" "''a''" 4 remote_ok, OF h1 h2 h3 h4 h5]
  from h1 h2 t ev show ?thesis by blast
qed

subsection \<open>C4: rollback when the remote save fails\<close>

text \<open>
  C4. For every mutating Tree Store operation (\<^verbatim>\<open>addNode\<close>, \<^verbatim>\<open>deleteNode\<close>,
  \<^verbatim>\<open>updateNodeLabel\<close>, \<^verbatim>\<open>updateNodeDescription\<close>, \<^verbatim>\<open>reparentNode\<close>, \<^verbatim>\<open>onNodeDragStop\<close>)
  that reaches its save (a tree is selected, the parent of \<^verbatim>\<open>addNode\<close> resolves, the
  recursion of \<^verbatim>\<open>deleteNode\<close> returns, the cycle check of \<^verbatim>\<open>reparentNode\<close> passes): if
  the remote store rejects the write with error \<open>e\<close>, the store state after the call is
  the state before it, and \<open>e\<close> is raised to the caller.
\<close>

theorem rollback_on_persistence_failure:
  assumes "currentTreeId st = Some t" and "t \<noteq> []" and "\<And>ns'. rem t ns' = Some e"
  shows "(find_node (nodes st) pid \<noteq> None \<longrightarrow>
            addNode rem newId st pid = (st, Raised (PersistenceError e))) \<and>
         (findChildren fuel (nodes st) n \<noteq> None \<longrightarrow>
            deleteNode fuel rem st n = (st, Raised (PersistenceError e))) \<and>
         updateNodeLabel rem st n l = (st, Raised (PersistenceError e)) \<and>
         updateNodeDescription rem st n d = (st, Raised (PersistenceError e)) \<and>
         (isAncestor fuel (nodes st) n p = Some False \<longrightarrow>
            reparentNode fuel rem st n p = (st, Raised (PersistenceError e))) \<and>
         onNodeDragStop rem st n pos = (st, Raised (PersistenceError e))"
proof -
  have tr: "truthy (currentTreeId st)" using assms(1,2) by (simp add: truthy_def)
  have fail: "persist_or_rollback rem st ns' = (st, Raised (PersistenceError e))" for ns'
    by (rule persist_fail) (simp add: saveTreeToSupabase_def assms)
  show ?thesis
    by (auto simp: addNode_def deleteNode_def updateNodeLabel_def updateNodeDescription_def
          reparentNode_def onNodeDragStop_def tr fail Let_def)
qed

theorem rollback_on_persistence_failure_witness:
  "addNode remote_down ''n1'' (store_of tree4) ''a''
     = (store_of tree4, Raised (PersistenceError ''offline'')) \<and>
   deleteNode 5 remote_down (store_of tree4) ''c''
     = (store_of tree4, Raised (PersistenceError ''offline'')) \<and>
   updateNodeLabel remote_down (store_of tree4) ''c'' ''algebra''
     = (store_of tree4, Raised (PersistenceError ''offline'')) \<and>
   updateNodeDescription remote_down (store_of tree4) ''c'' ''notes''
     = (store_of tree4, Raised (PersistenceError ''offline'')) \<and>
   reparentNode 5 remote_down (store_of tree4) ''c'' ''b''
     = (store_of tree4, Raised (PersistenceError ''offline'')) \<and>
   onNodeDragStop remote_down (store_of tree4) ''c'' \<lparr>x_coord = 10, y_coord = 20\<rparr>
     = (store_of tree4, Raised (PersistenceError ''offline''))"
proof -
  have h1: "currentTreeId (store_of tree4) = Some ''t1''" by (simp add: store_of_def)
  have h2: "''t1'' \<noteq> []" by simp
  have h3: "remote_down ''t1'' ns' = Some ''offline''" for ns' by (simp add: remote_down_def)
  have g1: "find_node (nodes (store_of tree4)) ''a'' \<noteq> None"
    by (simp add: store_of_def tree4_def mk_node_def find_node_def)
  have g2: "findChildren 5 (nodes (store_of tree4)) ''c'' \<noteq> None"
    by (simp add: store_of_def tree4_def mk_node_def eval_nat_numeral)
  have g3: "isAncestor 5 (nodes (store_of tree4)) ''c'' ''b'' = Some False"
    by (simp add: store_of_def tree4_def mk_node_def find_node_def eval_nat_numeral)
  note t = rollback_on_persistence_failure[where st = "store_of tree4" and t = "''t1''"
      and rem = remote_down and e = "''offline''" and pid = "''a''" and newId = "''n1''"
      and fuel = 5 and n = "''c''" and l = "''algebra''" and d = "''notes''" and p = "''b''"
      and pos = "\<lparr>x_coord = 10, y_coord = 20\<rparr>", OF h1 h2 h3]
  from t g1 g2 g3 show ?thesis by blast
qed

subsection \<open>C5: the breadcrumb path of a node at depth d\<close>

lemma parent_chain_snoc:
  "parent_chain (xs @ [p]) \<Longrightarrow> parentId c = Some (node_id p) \<Longrightarrow> parent_chain (xs @ [p, c])"
  by (induction xs rule: parent_chain.induct) auto

lemma breadcrumb_loop_path:
  assumes ne: "\<forall>m\<in>set ns. parentId m \<noteq> Some []"
  shows "find_node ns i = Some c \<Longrightarrow> depth K ns i = Some d \<Longrightarrow> d < k \<Longrightarrow>
         \<exists>anc. breadcrumb_loop k ns (Some c) acc = Some (anc @ acc) \<and> length anc = d \<and>
               parent_chain (anc @ [c]) \<and> parentId (hd (anc @ [c])) = None \<and> set anc \<subseteq> set ns"
proof (induction d arbitrary: i c K k acc)
  case 0
  from depth_0_root[OF 0(2) 0(1)] have r: "parentId c = None" .
  from 0(3) obtain k' where "k = Suc k'" by (cases k) auto
  with r show ?case by simp
next
  case (Suc d)
  from Suc.prems(2,1) obtain p K' where p: "parentId c = Some p" "depth K' ns p = Some d"
    by (rule depth_Suc_cases)
  from p(2) obtain pn where pn: "find_node ns p = Some pn" by (rule depth_found)
  from find_node_Some[OF pn] have pn_in: "pn \<in> set ns" and pn_id: "node_id pn = p" by simp_all
  from find_node_Some[OF Suc.prems(1)] ne p(1) have "p \<noteq> []" by auto
  from Suc.prems(3) obtain k' where k: "k = Suc k'" "d < k'" by (cases k) auto
  from Suc.IH[OF pn p(2) k(2), of "pn # acc"] obtain anc where
    anc: "breadcrumb_loop k' ns (Some pn) (pn # acc) = Some (anc @ pn # acc)" "length anc = d"
         "parent_chain (anc @ [pn])" "parentId (hd (anc @ [pn])) = None" "set anc \<subseteq> set ns"
    by auto
  have "breadcrumb_loop k ns (Some c) acc = Some ((anc @ [pn]) @ acc)"
    using p(1) \<open>p \<noteq> []\<close> pn anc(1) by (simp add: k)
  moreover have "length (anc @ [pn]) = Suc d" using anc(2) by simp
  moreover have "parent_chain ((anc @ [pn]) @ [c])"
    using parent_chain_snoc[OF anc(3)] p(1) pn_id by simp
  moreover have "parentId (hd ((anc @ [pn]) @ [c])) = None"
    using anc(4) by (cases anc) auto
  moreover have "set (anc @ [pn]) \<subseteq> set ns" using anc(5) pn_in by simp
  ultimately show ?case by blast
qed

text \<open>
  C5, as the code has it. For every node set in which no \<^verbatim>\<open>parentId\<close> is the empty
  string, and every node \<open>n\<close> whose ancestor chain reaches a root after \<open>d\<close> parent links
  (every node at depth \<open>d\<close> of a tree is one), \<^verbatim>\<open>calculateBreadcrumbPath(n, nodes)\<close>
  returns, after \<open>d + 1\<close> tests of its loop condition, a sequence of exactly \<open>d + 1\<close>
  nodes of the set that starts at a root and ends in \<open>n\<close>, each element being the parent
  of the next.
\<close>

theorem breadcrumb_path_at_depth:
  assumes "\<forall>m\<in>set ns. parentId m \<noteq> Some []" and "depth K ns n = Some d" and "d < fuel"
  shows "\<exists>path. calculateBreadcrumbPath fuel n ns = Some path \<and> length path = d + 1 \<and>
           parentId (hd path) = None \<and> find_node ns n = Some (last path) \<and>
           parent_chain path \<and> set path \<subseteq> set ns"
proof -
  from assms(2) obtain c where c: "find_node ns n = Some c" by (rule depth_found)
  from breadcrumb_loop_path[OF assms(1) c assms(2,3), of "[]"] obtain anc where
    anc: "breadcrumb_loop fuel ns (Some c) [] = Some anc" "length anc = d"
         "parent_chain (anc @ [c])" "parentId (hd (anc @ [c])) = None" "set anc \<subseteq> set ns"
    by auto
  have "calculateBreadcrumbPath fuel n ns = Some (anc @ [c])"
    using c anc(1) by (simp add: calculateBreadcrumbPath_def)
  moreover have "set (anc @ [c]) \<subseteq> set ns" using anc(5) find_node_Some[OF c] by simp
  ultimately show ?thesis using anc(2,3,4) c by auto
qed

text \<open>In the scenario, \<open>c\<close> is at depth 2 and its path is root, \<open>a\<close>, \<open>c\<close>.\<close>

theorem breadcrumb_path_at_depth_witness:
  "(\<exists>path. calculateBreadcrumbPath 3 ''c'' tree4 = Some path \<and> length path = 2 + 1 \<and>
           parentId (hd path) = None \<and> find_node tree4 ''c'' = Some (last path) \<and>
           parent_chain path \<and> set path \<subseteq> set tree4) \<and>
   calculateBreadcrumbPath 3 ''c'' tree4 =
     Some [mk_node ''root'' None 0 0, mk_node ''a'' (Some ''root'') 300 0, mk_node ''c'' (Some ''a'') 600 0]"
proof -
  have h1: "\<forall>m\<in>set tree4. parentId m \<noteq> Some []" by (simp add: tree4_def mk_node_def)
  have h2: "depth 4 tree4 ''c'' = Some 2"
    by (simp add: tree4_def mk_node_def find_node_def eval_nat_numeral)
  have h3: "(2::nat) < 3" by simp
  have ev: "calculateBreadcrumbPath 3 ''c'' tree4 =
     Some [mk_node ''root'' None 0 0, mk_node ''a'' (Some ''root'') 300 0, mk_node ''c'' (Some ''a'') 600 0]"
    by (simp add: calculateBreadcrumbPath_def tree4_def mk_node_def find_node_def eval_nat_numeral)
  from breadcrumb_path_at_depth[OF h1 h2 h3] ev show ?thesis by blast
qed

text \<open>
  The claim as stated, for every tree, fails where a node with children has the empty
  string as its id: the loop tests \<^verbatim>\<open>currentNode.parentId\<close> by truthiness and stops at
  the child. Here \<open>c\<close> is at depth 2 of a tree and its path is \<open>c\<close> alone.
\<close>

theorem breadcrumb_path_counterexample:
  "is_tree empty_id_tree \<and> depth 3 empty_id_tree ''c'' = Some 2 \<and>
   calculateBreadcrumbPath 3 ''c'' empty_id_tree = Some [mk_node ''c'' (Some []) 600 0]"
  by (simp add: empty_id_tree_is_tree)
     (simp add: calculateBreadcrumbPath_def empty_id_tree_def mk_node_def find_node_def eval_nat_numeral)

subsection \<open>C6: termination of the breadcrumb walk\<close>

lemma breadcrumb_loop_returns:
  "find_node ns i = Some c \<Longrightarrow> depth K ns i = Some d \<Longrightarrow> d < k \<Longrightarrow>
   breadcrumb_loop k ns (Some c) acc \<noteq> None"
proof (induction d arbitrary: i c K k acc)
  case 0
  from depth_0_root[OF 0(2) 0(1)] have r: "parentId c = None" .
  from 0(3) obtain k' where "k = Suc k'" by (cases k) auto
  with r show ?case by simp
next
  case (Suc d)
  from Suc.prems(2,1) obtain p K' where p: "parentId c = Some p" "depth K' ns p = Some d"
    by (rule depth_Suc_cases)
  from p(2) obtain pn where pn: "find_node ns p = Some pn" by (rule depth_found)
  from Suc.prems(3) obtain k' where k: "k = Suc k'" "d < k'" by (cases k) auto
  from Suc.IH[OF pn p(2) k(2)] p(1) pn show ?case by (simp add: k)
qed

lemma self_parent_loop:
  "breadcrumb_loop k self_parent (Some (mk_node ''a'' (Some ''a'') 0 0)) acc = None"
  by (induction k arbitrary: acc) (simp_all add: self_parent_def find_node_def mk_node_def)

lemma walk_link_target: "(c, c') \<in> walk_link ns \<Longrightarrow> c' \<in> set ns"
  by (auto simp: walk_link_def dest: find_node_Some)

lemma walk_link_functional: "(c, x) \<in> walk_link ns \<Longrightarrow> (c, y) \<in> walk_link ns \<Longrightarrow> x = y"
  by (auto simp: walk_link_def)

lemma breadcrumb_loop_link:
  "(c, c') \<in> walk_link ns \<Longrightarrow>
   breadcrumb_loop (Suc k) ns (Some c) acc = breadcrumb_loop k ns (Some c') (c' # acc)"
  by (auto simp: walk_link_def)

lemma breadcrumb_loop_no_link:
  "\<forall>c'. (c, c') \<notin> walk_link ns \<Longrightarrow> breadcrumb_loop (Suc k) ns (Some c) acc = Some acc"
  by (auto simp: walk_link_def split: option.splits)

lemma breadcrumb_loop_cycle:
  assumes cyc: "(c, c) \<in> (walk_link ns)\<^sup>+"
  shows "(x, c) \<in> (walk_link ns)\<^sup>* \<Longrightarrow> breadcrumb_loop k ns (Some x) acc = None"
proof (induction k arbitrary: x acc)
  case 0
  show ?case by simp
next
  case (Suc k)
  have "\<exists>y. (x, y) \<in> walk_link ns \<and> (y, c) \<in> (walk_link ns)\<^sup>*"
  proof (cases "x = c")
    case True
    from tranclD[OF cyc] True show ?thesis by auto
  next
    case False
    from Suc.prems False show ?thesis by (auto elim: converse_rtranclE)
  qed
  then obtain y where y: "(x, y) \<in> walk_link ns" "(y, c) \<in> (walk_link ns)\<^sup>*" by auto
  from Suc.IH[OF y(2)] breadcrumb_loop_link[OF y(1)] show ?case by simp
qed

lemma walk_reach_subset: "x \<in> set ns \<Longrightarrow> (walk_link ns)\<^sup>* `` {x} \<subseteq> set ns"
proof
  fix y assume x: "x \<in> set ns" and "y \<in> (walk_link ns)\<^sup>* `` {x}"
  then have "(x, y) \<in> (walk_link ns)\<^sup>*" by simp
  then show "y \<in> set ns" using x by (induction rule: rtrancl_induct) (auto dest: walk_link_target)
qed

lemma breadcrumb_loop_acyclic:
  "\<not> (\<exists>c. (x, c) \<in> (walk_link ns)\<^sup>* \<and> (c, c) \<in> (walk_link ns)\<^sup>+) \<Longrightarrow> x \<in> set ns \<Longrightarrow>
   card ((walk_link ns)\<^sup>* `` {x}) \<le> k \<Longrightarrow> breadcrumb_loop k ns (Some x) acc \<noteq> None"
proof (induction k arbitrary: x acc)
  case 0
  from walk_reach_subset[OF 0(2)] have "finite ((walk_link ns)\<^sup>* `` {x})"
    by (rule finite_subset) simp
  moreover have "x \<in> (walk_link ns)\<^sup>* `` {x}" by simp
  ultimately have "0 < card ((walk_link ns)\<^sup>* `` {x})" by (auto simp: card_gt_0_iff)
  with 0(3) show ?case by simp
next
  case (Suc k)
  show ?case
  proof (cases "\<exists>y. (x, y) \<in> walk_link ns")
    case False
    then show ?thesis by (simp add: breadcrumb_loop_no_link del: breadcrumb_loop.simps)
  next
    case True
    then obtain y where y: "(x, y) \<in> walk_link ns" ..
    have fin: "finite ((walk_link ns)\<^sup>* `` {x})"
      using walk_reach_subset[OF Suc.prems(2)] by (rule finite_subset) simp
    have sub: "(walk_link ns)\<^sup>* `` {y} \<subseteq> (walk_link ns)\<^sup>* `` {x}"
      using y by (auto intro: converse_rtrancl_into_rtrancl)
    have "x \<notin> (walk_link ns)\<^sup>* `` {y}"
    proof
      assume "x \<in> (walk_link ns)\<^sup>* `` {y}"
      then have "(y, x) \<in> (walk_link ns)\<^sup>*" by simp
      with y have "(x, x) \<in> (walk_link ns)\<^sup>+" by (rule rtrancl_into_trancl2)
      with Suc.prems(1) show False by blast
    qed
    with sub have "(walk_link ns)\<^sup>* `` {y} \<subset> (walk_link ns)\<^sup>* `` {x}" by auto
    from psubset_card_mono[OF fin this] Suc.prems(3)
    have c: "card ((walk_link ns)\<^sup>* `` {y}) \<le> k" by simp
    have nc: "\<not> (\<exists>c. (y, c) \<in> (walk_link ns)\<^sup>* \<and> (c, c) \<in> (walk_link ns)\<^sup>+)"
      using Suc.prems(1) y by (blast intro: converse_rtrancl_into_rtrancl)
    from Suc.IH[OF nc walk_link_target[OF y] c] breadcrumb_loop_link[OF y]
    show ?thesis by simp
  qed
qed

lemma walk_returns_no_cycle:
  "calculateBreadcrumbPath k nodeId ns \<noteq> None \<Longrightarrow> \<not> walk_meets_cycle ns nodeId"
proof
  assume r: "calculateBreadcrumbPath k nodeId ns \<noteq> None" and "walk_meets_cycle ns nodeId"
  then obtain c0 c where c0: "find_node ns nodeId = Some c0"
    and reach: "(c0, c) \<in> (walk_link ns)\<^sup>*" and cyc: "(c, c) \<in> (walk_link ns)\<^sup>+"
    by (auto simp: walk_meets_cycle_def)
  from breadcrumb_loop_cycle[OF cyc reach, of k "[]"] c0 r show False
    by (simp add: calculateBreadcrumbPath_def)
qed

lemma tree_no_walk_cycle:
  assumes "is_tree ns" shows "\<not> walk_meets_cycle ns nodeId"
proof (cases "find_node ns nodeId")
  case None
  then show ?thesis by (simp add: walk_meets_cycle_def)
next
  case (Some c)
  from find_node_Some[OF Some] have "nodeId \<in> node_id ` set ns" by auto
  from tree_present_depth[OF assms this] obtain d where d: "depth (length ns) ns nodeId = Some d" ..
  from breadcrumb_loop_returns[OF Some d, of "Suc d" "[]"] Some
  have "calculateBreadcrumbPath (Suc d) nodeId ns \<noteq> None"
    by (auto simp: calculateBreadcrumbPath_def simp del: breadcrumb_loop.simps)
  then show ?thesis by (rule walk_returns_no_cycle)
qed

text \<open>
  C6, as the code has it. For every node set and every node id: unless the chain of
  links that the walk follows from the node runs into a cycle, the upward walk of
  \<^verbatim>\<open>calculateBreadcrumbPath\<close> returns after at most as many iterations as there are
  nodes. This covers every tree, the empty node set, an id that does not resolve, and
  chains that end at an unresolved or empty \<^verbatim>\<open>parentId\<close>. The loop has no cap and
  raises no error: when the chain runs into a cycle, the walk never returns.
\<close>

theorem breadcrumb_walk_returns_unless_cycle:
  "(\<not> walk_meets_cycle ns nodeId \<and> length ns < fuel \<longrightarrow>
      (\<exists>path. calculateBreadcrumbPath fuel nodeId ns = Some path)) \<and>
   (walk_meets_cycle ns nodeId \<longrightarrow> calculateBreadcrumbPath fuel nodeId ns = None)"
proof (intro conjI impI)
  assume a: "\<not> walk_meets_cycle ns nodeId \<and> length ns < fuel"
  show "\<exists>path. calculateBreadcrumbPath fuel nodeId ns = Some path"
  proof (cases "find_node ns nodeId")
    case None
    from a obtain k where "fuel = Suc k" by (cases fuel) auto
    with None show ?thesis by (simp add: calculateBreadcrumbPath_def)
  next
    case (Some c0)
    from find_node_Some[OF Some] have in_ns: "c0 \<in> set ns" by simp
    from a Some have nc: "\<not> (\<exists>c. (c0, c) \<in> (walk_link ns)\<^sup>* \<and> (c, c) \<in> (walk_link ns)\<^sup>+)"
      by (auto simp: walk_meets_cycle_def)
    have "card ((walk_link ns)\<^sup>* `` {c0}) \<le> card (set ns)"
      by (rule card_mono) (simp_all add: walk_reach_subset[OF in_ns])
    also have "\<dots> \<le> length ns" by (rule card_length)
    finally have "card ((walk_link ns)\<^sup>* `` {c0}) \<le> fuel" using a by simp
    from breadcrumb_loop_acyclic[OF nc in_ns this, of "[]"] Some show ?thesis
      by (auto simp: calculateBreadcrumbPath_def)
  qed
next
  assume "walk_meets_cycle ns nodeId"
  with walk_returns_no_cycle[of fuel nodeId ns]
  show "calculateBreadcrumbPath fuel nodeId ns = None" by blast
qed

text \<open>
  The scenario tree, the empty node set, a node under an unresolved parent and the two
  nodes that name each other through the empty id: the walk returns on each. On the
  node that is its own parent it does not.
\<close>

theorem breadcrumb_walk_returns_unless_cycle_witness:
  "\<not> walk_meets_cycle tree4 ''c'' \<and> (\<exists>path. calculateBreadcrumbPath 5 ''c'' tree4 = Some path) \<and>
   \<not> walk_meets_cycle [] ''c'' \<and> (\<exists>path. calculateBreadcrumbPath 1 ''c'' [] = Some path) \<and>
   \<not> walk_meets_cycle [mk_node ''d'' (Some ''ghost'') 0 0] ''d'' \<and>
   (\<exists>path. calculateBreadcrumbPath 2 ''d'' [mk_node ''d'' (Some ''ghost'') 0 0] = Some path) \<and>
   \<not> walk_meets_cycle empty_id_cycle ''x'' \<and>
   (\<exists>path. calculateBreadcrumbPath 3 ''x'' empty_id_cycle = Some path) \<and>
   walk_meets_cycle self_parent ''a'' \<and> calculateBreadcrumbPath 7 ''a'' self_parent = None"
proof -
  have "calculateBreadcrumbPath 5 ''c'' tree4 \<noteq> None"
    by (simp add: calculateBreadcrumbPath_def tree4_def mk_node_def find_node_def eval_nat_numeral)
  then have n1: "\<not> walk_meets_cycle tree4 ''c''" by (rule walk_returns_no_cycle)
  have l1: "length tree4 < 5" by (simp add: tree4_def)
  have "calculateBreadcrumbPath 1 ''c'' [] \<noteq> None"
    by (simp add: calculateBreadcrumbPath_def find_node_def)
  then have n2: "\<not> walk_meets_cycle [] ''c''" by (rule walk_returns_no_cycle)
  have l2: "length ([] :: TreeNode list) < 1" by simp
  have "calculateBreadcrumbPath 2 ''d'' [mk_node ''d'' (Some ''ghost'') 0 0] \<noteq> None"
    by (simp add: calculateBreadcrumbPath_def mk_node_def find_node_def eval_nat_numeral)
  then have n3: "\<not> walk_meets_cycle [mk_node ''d'' (Some ''ghost'') 0 0] ''d''"
    by (rule walk_returns_no_cycle)
  have l3: "length [mk_node ''d'' (Some ''ghost'') 0 0] < 2" by simp
  have "calculateBreadcrumbPath 3 ''x'' empty_id_cycle \<noteq> None"
    by (simp add: calculateBreadcrumbPath_def empty_id_cycle_def mk_node_def find_node_def
          eval_nat_numeral)
  then have n4: "\<not> walk_meets_cycle empty_id_cycle ''x''" by (rule walk_returns_no_cycle)
  have l4: "length empty_id_cycle < 3" by (simp add: empty_id_cycle_def)
  have "(mk_node ''a'' (Some ''a'') 0 0, mk_node ''a'' (Some ''a'') 0 0) \<in> walk_link self_parent"
    by (simp add: walk_link_def self_parent_def mk_node_def find_node_def)
  then have "(mk_node ''a'' (Some ''a'') 0 0, mk_node ''a'' (Some ''a'') 0 0) \<in> (walk_link self_parent)\<^sup>+"
    by (rule r_into_trancl)
  moreover have "find_node self_parent ''a'' = Some (mk_node ''a'' (Some ''a'') 0 0)"
    by (simp add: self_parent_def mk_node_def find_node_def)
  ultimately have cyc: "walk_meets_cycle self_parent ''a''"
    unfolding walk_meets_cycle_def by blast
  note t1 = breadcrumb_walk_returns_unless_cycle[of tree4 "''c''" 5, THEN conjunct1, rule_format,
      OF conjI[OF n1 l1]]
  note t2 = breadcrumb_walk_returns_unless_cycle[of "[]" "''c''" 1, THEN conjunct1, rule_format,
      OF conjI[OF n2 l2]]
  note t3 = breadcrumb_walk_returns_unless_cycle[of "[mk_node ''d'' (Some ''ghost'') 0 0]" "''d''" 2,
      THEN conjunct1, rule_format, OF conjI[OF n3 l3]]
  note t4 = breadcrumb_walk_returns_unless_cycle[of empty_id_cycle "''x''" 3, THEN conjunct1,
      rule_format, OF conjI[OF n4 l4]]
  note t5 = breadcrumb_walk_returns_unless_cycle[of self_parent "''a''" 7, THEN conjunct2,
      rule_format, OF cyc]
  from n1 t1 n2 t2 n3 t3 n4 t4 cyc t5 show ?thesis by blast
qed

text \<open>
  The claim as stated, for every node set, fails on a cycle: for the node that is its
  own parent, the walk has not returned after any number of iterations.
\<close>

theorem breadcrumb_walk_counterexample:
  "\<not> (\<exists>fuel path. calculateBreadcrumbPath fuel ''a'' self_parent = Some path)"
proof -
  have f: "find_node self_parent ''a'' = Some (mk_node ''a'' (Some ''a'') 0 0)"
    by (simp add: self_parent_def find_node_def mk_node_def)
  show ?thesis by (simp add: calculateBreadcrumbPath_def f self_parent_loop)
qed

subsection \<open>C7: the focused view\<close>

text \<open>
  C7, as the code has it. The code tests the focus id by truthiness, so the empty
  string counts as unset. For every node set and focus id \<open>f\<close>: if \<open>f\<close> is a non-empty
  id that resolves to a node, the focused view is exactly that node followed by its
  direct children (\<open>1 + |direct children|\<close> nodes); if \<open>f\<close> is unset (\<^verbatim>\<open>null\<close> or the
  empty string) and the node set has a root, it is the first root followed by that root's
  direct children, and the node set itself when there is no root; if \<open>f\<close> is a non-empty
  id that does not resolve, it is the full node set unchanged.
\<close>

theorem focusedView_cases:
  "(i \<noteq> [] \<and> find_node ns i = Some n \<longrightarrow>
      focusedView (Some i) ns = n # filter (\<lambda>m. parentId m = Some i) ns \<and>
      length (focusedView (Some i) ns) = 1 + length (filter (\<lambda>m. parentId m = Some i) ns)) \<and>
   (\<not> truthy f \<and> find (\<lambda>m. parentId m = None) ns = Some r \<longrightarrow>
      focusedView f ns = r # filter (\<lambda>m. parentId m = Some (node_id r)) ns) \<and>
   (\<not> truthy f \<and> find (\<lambda>m. parentId m = None) ns = None \<longrightarrow> focusedView f ns = ns) \<and>
   (i \<noteq> [] \<and> find_node ns i = None \<longrightarrow> focusedView (Some i) ns = ns)"
proof (intro conjI impI)
  assume "\<not> truthy f \<and> find (\<lambda>m. parentId m = None) ns = Some r"
  then have "focusedView f ns = getDefaultFocusedNodes ns" "find (\<lambda>m. parentId m = None) ns = Some r"
    by (auto simp: focusedView_def truthy_def split: option.splits)
  moreover from this(2) have "ns \<noteq> []" by auto
  ultimately show "focusedView f ns = r # filter (\<lambda>m. parentId m = Some (node_id r)) ns"
    by (simp add: getDefaultFocusedNodes_def)
next
  assume "\<not> truthy f \<and> find (\<lambda>m. parentId m = None) ns = None"
  then have "focusedView f ns = getDefaultFocusedNodes ns" "find (\<lambda>m. parentId m = None) ns = None"
    by (auto simp: focusedView_def truthy_def split: option.splits)
  then show "focusedView f ns = ns" by (simp add: getDefaultFocusedNodes_def)
qed (simp_all add: focusedView_def getFocusedNodes_def)

theorem focusedView_cases_witness:
  "focusedView (Some ''a'') tree4 = [mk_node ''a'' (Some ''root'') 300 0, mk_node ''c'' (Some ''a'') 600 0] \<and>
   length (focusedView (Some ''a'') tree4) = 1 + length (filter (\<lambda>m. parentId m = Some ''a'') tree4) \<and>
   focusedView None tree4 = [mk_node ''root'' None 0 0, mk_node ''a'' (Some ''root'') 300 0,
                             mk_node ''b'' (Some ''root'') 300 180] \<and>
   focusedView None self_parent = self_parent \<and>
   focusedView (Some ''ghost'') tree4 = tree4"
proof -
  have a: "''a'' \<noteq> [] \<and> find_node tree4 ''a'' = Some (mk_node ''a'' (Some ''root'') 300 0)"
    by (simp add: tree4_def mk_node_def find_node_def)
  have ch: "filter (\<lambda>m. parentId m = Some ''a'') tree4 = [mk_node ''c'' (Some ''a'') 600 0]"
    by (simp add: tree4_def mk_node_def)
  have r: "\<not> truthy None \<and> find (\<lambda>m. parentId m = None) tree4 = Some (mk_node ''root'' None 0 0)"
    by (simp add: tree4_def mk_node_def truthy_def)
  have rch: "filter (\<lambda>m. parentId m = Some (node_id (mk_node ''root'' None 0 0))) tree4
     = [mk_node ''a'' (Some ''root'') 300 0, mk_node ''b'' (Some ''root'') 300 180]"
    by (simp add: tree4_def mk_node_def)
  have nr: "\<not> truthy None \<and> find (\<lambda>m. parentId m = None) self_parent = None"
    by (simp add: self_parent_def mk_node_def truthy_def)
  have g: "''ghost'' \<noteq> [] \<and> find_node tree4 ''ghost'' = None"
    by (simp add: tree4_def mk_node_def find_node_def)
  note t1 = focusedView_cases[of "''a''" tree4 "mk_node ''a'' (Some ''root'') 300 0" None
      "mk_node ''root'' None 0 0", THEN conjunct1, rule_format, OF a]
  note t2 = focusedView_cases[of "''a''" tree4 "mk_node ''a'' (Some ''root'') 300 0" None
      "mk_node ''root'' None 0 0", THEN conjunct2, THEN conjunct1, rule_format, OF r]
  note t3 = focusedView_cases[of "''a''" self_parent "mk_node ''a'' (Some ''root'') 300 0" None
      "mk_node ''root'' None 0 0", THEN conjunct2, THEN conjunct2, THEN conjunct1, rule_format, OF nr]
  note t4 = focusedView_cases[of "''ghost''" tree4 "mk_node ''a'' (Some ''root'') 300 0" None
      "mk_node ''root'' None 0 0", THEN conjunct2, THEN conjunct2, THEN conjunct2, rule_format, OF g]
  from t1 t2 t3 t4 show ?thesis unfolding ch rch by blast
qed

text \<open>
  The claim as stated fails for the empty string as focus id: it is a set id, but the
  code takes it for unset and returns the default view, whether it resolves to a node
  (first case of the claim) or not (third case).
\<close>

theorem focusedView_counterexample:
  "find_node tree4 [] = None \<and>
   focusedView (Some []) tree4 =
     [mk_node ''root'' None 0 0, mk_node ''a'' (Some ''root'') 300 0, mk_node ''b'' (Some ''root'') 300 180] \<and>
   focusedView (Some []) tree4 \<noteq> tree4 \<and>
   find_node empty_id_tree [] = Some (mk_node [] (Some ''root'') 300 0) \<and>
   focusedView (Some []) empty_id_tree = [mk_node ''root'' None 0 0, mk_node [] (Some ''root'') 300 0]"
  by (simp add: focusedView_def getDefaultFocusedNodes_def tree4_def empty_id_tree_def
        mk_node_def find_node_def)

subsection \<open>C8: addNode appends one new node\<close>

lemma quantum_numeral:
  "quantum (numeral n) a q =
     (if a < 2 ^ 52 * q then quantum (pred_numeral n) a (q / 2)
      else if 2 ^ 53 * q \<le> a then quantum (pred_numeral n) a (2 * q)
      else q)"
  by (simp add: numeral_eq_Suc)

lemma double_add_examples:
  "double_add 300 50 = 350" "double_add 0 50 = 50"
  "double_add 100000000000000000 50 = 100000000000000048"
  by (simp_all add: double_add_def to_double_def quantum_numeral round_half_even_def Let_def)

text \<open>
  C8, as the code has it. For every store state with a selected tree and a
  \<^verbatim>\<open>parentId\<close> resolving to an existing parent node, \<^verbatim>\<open>addNode(parentId)\<close> (the remote
  store accepting the write) appends exactly one new node: its id is the value that
  \<^verbatim>\<open>crypto.randomUUID()\<close> returned, which the code does not compare with the ids of the
  set, so that the ids of the new set are unique exactly when those of the old set are
  and the returned value is not among them; its label is the three-character Chinese
  string of the source (not the English text "new node"); its description is absent;
  its \<^verbatim>\<open>parentId\<close> is the given one; and its position is the parent's position with 50
  added to each coordinate by the addition of doubles. All pre-existing nodes are
  unchanged.
\<close>

theorem addNode_appends_new_node:
  assumes "truthy (currentTreeId st)" and "find_node (nodes st) pid = Some parent"
    and "\<And>t ns'. rem t ns' = None"
  shows "addNode rem newId st pid =
           (st\<lparr>nodes := nodes st @
                 [\<lparr>node_id = newId, label = new_node_label, description = None,
                   parentId = Some pid,
                   position = \<lparr>x_coord = double_add (x_coord (position parent)) 50,
                               y_coord = double_add (y_coord (position parent)) 50\<rparr>\<rparr>]\<rparr>, Done)
         \<and> (distinct (map node_id (nodes (fst (addNode rem newId st pid)))) \<longleftrightarrow>
              distinct (map node_id (nodes st)) \<and> newId \<notin> node_id ` set (nodes st))"
proof -
  have "saveTreeToSupabase rem s = None" for s by (rule save_accepting) (rule assms(3))
  then have eq: "addNode rem newId st pid =
           (st\<lparr>nodes := nodes st @
                 [\<lparr>node_id = newId, label = new_node_label, description = None,
                   parentId = Some pid,
                   position = \<lparr>x_coord = double_add (x_coord (position parent)) 50,
                               y_coord = double_add (y_coord (position parent)) 50\<rparr>\<rparr>]\<rparr>, Done)"
    using assms(1,2) by (simp add: addNode_def persist_ok)
  show ?thesis unfolding eq by auto
qed

text \<open>In the scenario, a child added under \<open>a\<close> at (300, 0) is placed at (350, 50).\<close>

theorem addNode_appends_new_node_witness:
  "addNode remote_ok ''n1'' (store_of tree4) ''a'' =
     (store_of (tree4 @ [\<lparr>node_id = ''n1'', label = new_node_label, description = None,
                          parentId = Some ''a'',
                          position = \<lparr>x_coord = 350, y_coord = 50\<rparr>\<rparr>]), Done)
   \<and> distinct (map node_id (nodes (fst (addNode remote_ok ''n1'' (store_of tree4) ''a''))))"
proof -
  have h1: "truthy (currentTreeId (store_of tree4))" by (simp add: store_of_def truthy_def)
  have h2: "find_node (nodes (store_of tree4)) ''a'' = Some (mk_node ''a'' (Some ''root'') 300 0)"
    by (simp add: store_of_def tree4_def mk_node_def find_node_def)
  have h3: "remote_ok t ns' = None" for t ns' by (simp add: remote_ok_def)
  have d: "distinct (map node_id (nodes (store_of tree4))) \<and>
           ''n1'' \<notin> node_id ` set (nodes (store_of tree4))"
    by (simp add: store_of_def tree4_def mk_node_def)
  note t = addNode_appends_new_node[of "store_of tree4" "''a''" "mk_node ''a'' (Some ''root'') 300 0"
      remote_ok "''n1''", OF h1 h2 h3]
  from t[THEN conjunct1] have "addNode remote_ok ''n1'' (store_of tree4) ''a'' =
     (store_of (tree4 @ [\<lparr>node_id = ''n1'', label = new_node_label, description = None,
                          parentId = Some ''a'',
                          position = \<lparr>x_coord = 350, y_coord = 50\<rparr>\<rparr>]), Done)"
    by (simp add: store_of_def mk_node_def double_add_examples)
  moreover from t[THEN conjunct2] d
  have "distinct (map node_id (nodes (fst (addNode remote_ok ''n1'' (store_of tree4) ''a''))))"
    by blast
  ultimately show ?thesis by blast
qed

text \<open>
  The claim as stated fails in three places. The label is not the string "new node".
  The id is fresh only if the generator's value is: when \<^verbatim>\<open>crypto.randomUUID()\<close> returns
  an id that is in the set, the call succeeds and the set holds that id twice. And the
  position is the rounded sum: under a parent at \<open>x = 10^17\<close> the new node is placed at
  \<open>x = 10^17 + 48\<close>.
\<close>

theorem addNode_counterexample:
  "label (last (nodes (fst (addNode remote_ok ''n1'' (store_of tree4) ''a'')))) \<noteq> ''new node'' \<and>
   addNode remote_ok ''3b241101-e2bb-4255-8caf-4136c566a962'' (store_of uuid_tree) ''root'' =
     (store_of (uuid_tree @
        [\<lparr>node_id = ''3b241101-e2bb-4255-8caf-4136c566a962'', label = new_node_label,
          description = None, parentId = Some ''root'',
          position = \<lparr>x_coord = 50, y_coord = 50\<rparr>\<rparr>]), Done) \<and>
   ''3b241101-e2bb-4255-8caf-4136c566a962'' \<in> node_id ` set uuid_tree \<and>
   x_coord (position (last (nodes (fst (addNode remote_ok ''n1'' (store_of far_tree) ''root'')))))
     = 10 ^ 17 + 48 \<and>
   x_coord (position (last (nodes (fst (addNode remote_ok ''n1'' (store_of far_tree) ''root'')))))
     \<noteq> x_coord (position (mk_node ''root'' None (10 ^ 17) 0)) + 50"
  by (simp add: addNode_def store_of_def tree4_def uuid_tree_def far_tree_def mk_node_def
        find_node_def truthy_def remote_ok_def persist_or_rollback_def saveTreeToSupabase_def
        new_node_label_def double_add_examples)

subsection \<open>C9: precondition failures\<close>

text \<open>
  C9, as the code has it. Every Tree Store mutation invoked with no active tree
  selected, and \<^verbatim>\<open>addNode\<close> with a \<^verbatim>\<open>parentId\<close> that does not resolve, is aborted: the
  state after the call is the state before it and no error is raised. The other
  operations do not check that their node id resolves: with an unresolved node id,
  \<^verbatim>\<open>updateNodeLabel\<close>, \<^verbatim>\<open>updateNodeDescription\<close> and \<^verbatim>\<open>onNodeDragStop\<close> leave the state
  as it was but still run the save, whose failure they raise; \<^verbatim>\<open>reparentNode\<close> leaves
  the state as it was; and so does \<^verbatim>\<open>deleteNode\<close> when no node names the id as its
  parent.
\<close>

theorem precondition_failures:
  "(\<not> truthy (currentTreeId st) \<longrightarrow> apply_mutation fuel rem st m = (st, Aborted NoCurrentTree)) \<and>
   (truthy (currentTreeId st) \<and> find_node (nodes st) pid = None \<longrightarrow>
      addNode rem newId st pid = (st, Aborted ParentNotFound)) \<and>
   (truthy (currentTreeId st) \<and> find_node (nodes st) n = None \<longrightarrow>
      updateNodeLabel rem st n l =
        (st, case saveTreeToSupabase rem st of None \<Rightarrow> Done | Some e \<Rightarrow> Raised (PersistenceError e)) \<and>
      updateNodeDescription rem st n d =
        (st, case saveTreeToSupabase rem st of None \<Rightarrow> Done | Some e \<Rightarrow> Raised (PersistenceError e)) \<and>
      onNodeDragStop rem st n pos =
        (st, case saveTreeToSupabase rem st of None \<Rightarrow> Done | Some e \<Rightarrow> Raised (PersistenceError e)) \<and>
      fst (reparentNode fuel rem st n p) = st) \<and>
   (find_node (nodes st) n = None \<and> (\<forall>c\<in>set (nodes st). parentId c \<noteq> Some n) \<longrightarrow>
      fst (deleteNode fuel rem st n) = st)"
proof (intro conjI impI)
  assume "\<not> truthy (currentTreeId st)"
  then show "apply_mutation fuel rem st m = (st, Aborted NoCurrentTree)"
    by (cases m)
       (simp_all add: addNode_def deleteNode_def updateNodeLabel_def updateNodeDescription_def
          reparentNode_def onNodeDragStop_def)
next
  assume "truthy (currentTreeId st) \<and> find_node (nodes st) pid = None"
  then show "addNode rem newId st pid = (st, Aborted ParentNotFound)"
    by (simp add: addNode_def)
next
  assume a: "truthy (currentTreeId st) \<and> find_node (nodes st) n = None"
  then have m: "map (\<lambda>node. if node_id node = n then g node else node) (nodes st) = nodes st" for g
    by (simp add: map_unresolved)
  from a show "updateNodeLabel rem st n l =
        (st, case saveTreeToSupabase rem st of None \<Rightarrow> Done | Some e \<Rightarrow> Raised (PersistenceError e))"
    unfolding updateNodeLabel_def m by (simp add: persist_same)
  from a show "updateNodeDescription rem st n d =
        (st, case saveTreeToSupabase rem st of None \<Rightarrow> Done | Some e \<Rightarrow> Raised (PersistenceError e))"
    unfolding updateNodeDescription_def m by (simp add: persist_same)
  from a show "onNodeDragStop rem st n pos =
        (st, case saveTreeToSupabase rem st of None \<Rightarrow> Done | Some e \<Rightarrow> Raised (PersistenceError e))"
    unfolding onNodeDragStop_def m by (simp add: persist_same)
  show "fst (reparentNode fuel rem st n p) = st"
    unfolding reparentNode_def m by (simp add: persist_same split: option.splits bool.splits)
next
  assume a: "find_node (nodes st) n = None \<and> (\<forall>c\<in>set (nodes st). parentId c \<noteq> Some n)"
  then have keep: "filter (\<lambda>node. node_id node \<noteq> n) (nodes st) = nodes st"
    by (auto simp: find_node_None filter_id_conv)
  show "fst (deleteNode fuel rem st n) = st"
  proof (cases fuel)
    case 0
    then show ?thesis by (simp add: deleteNode_def)
  next
    case (Suc k)
    from a have "findChildren (Suc k) (nodes st) n = Some []"
      by (intro findChildren_no_children) simp
    then show ?thesis unfolding Suc deleteNode_def
      by (simp add: keep persist_same del: findChildren.simps)
  qed
qed

theorem precondition_failures_witness:
  "apply_mutation 5 remote_ok ((store_of tree4)\<lparr>currentTreeId := None\<rparr>) (DeleteNode ''a'')
     = ((store_of tree4)\<lparr>currentTreeId := None\<rparr>, Aborted NoCurrentTree) \<and>
   addNode remote_ok ''n1'' (store_of tree4) ''ghost'' = (store_of tree4, Aborted ParentNotFound) \<and>
   updateNodeLabel remote_down (store_of tree4) ''ghost'' ''x''
     = (store_of tree4, Raised (PersistenceError ''offline'')) \<and>
   fst (reparentNode 5 remote_down (store_of tree4) ''ghost'' ''a'') = store_of tree4 \<and>
   fst (deleteNode 5 remote_down (store_of tree4) ''ghost'') = store_of tree4"
proof -
  have a: "\<not> truthy (currentTreeId ((store_of tree4)\<lparr>currentTreeId := None\<rparr>))"
    by (simp add: truthy_def)
  have b: "truthy (currentTreeId (store_of tree4)) \<and> find_node (nodes (store_of tree4)) ''ghost'' = None"
    by (simp add: store_of_def truthy_def tree4_def mk_node_def find_node_def)
  have c: "find_node (nodes (store_of tree4)) ''ghost'' = None \<and>
           (\<forall>c\<in>set (nodes (store_of tree4)). parentId c \<noteq> Some ''ghost'')"
    by (simp add: store_of_def tree4_def mk_node_def find_node_def)
  have sv: "saveTreeToSupabase remote_down (store_of tree4) = Some ''offline''"
    by (simp add: saveTreeToSupabase_def store_of_def remote_down_def)
  note t0 = precondition_failures[where st = "(store_of tree4)\<lparr>currentTreeId := None\<rparr>"
      and fuel = 5 and rem = remote_ok and m = "DeleteNode ''a''", THEN conjunct1, rule_format, OF a]
  note t = precondition_failures[where st = "store_of tree4" and fuel = 5 and rem = remote_down
      and n = "''ghost''" and l = "''x''" and p = "''a''"]
  note t1 = precondition_failures[where st = "store_of tree4" and rem = remote_ok
      and pid = "''ghost''" and newId = "''n1''", THEN conjunct2, THEN conjunct1, rule_format, OF b]
  note t2 = t[THEN conjunct2, THEN conjunct2, THEN conjunct1, rule_format, OF b]
  note t3 = t[THEN conjunct2, THEN conjunct2, THEN conjunct2, rule_format, OF c]
  from t0 t1 t2 t3 show ?thesis by (simp add: sv)
qed

text \<open>
  The claim as stated fails for the operations that do not look their node up:
  \<^verbatim>\<open>updateNodeLabel\<close> on an unresolved id is not aborted, it saves, and the failure of
  the save is raised; \<^verbatim>\<open>reparentNode\<close> under an unresolved parent id changes the node
  set.
\<close>

theorem precondition_failures_counterexample:
  "find_node tree4 ''ghost'' = None \<and>
   updateNodeLabel remote_down (store_of tree4) ''ghost'' ''x''
     = (store_of tree4, Raised (PersistenceError ''offline'')) \<and>
   reparentNode 5 remote_ok (store_of tree4) ''c'' ''ghost''
     = (store_of [mk_node ''root'' None 0 0, mk_node ''a'' (Some ''root'') 300 0,
                  mk_node ''b'' (Some ''root'') 300 180, mk_node ''c'' (Some ''ghost'') 600 0], Done)"
  by (simp add: updateNodeLabel_def reparentNode_def store_of_def tree4_def mk_node_def
        find_node_def truthy_def remote_down_def remote_ok_def persist_or_rollback_def
        saveTreeToSupabase_def eval_nat_numeral)

subsection \<open>C10: the overlap test is commutative\<close>

text \<open>
  C10. For every pair of layout nodes \<open>a\<close> and \<open>b\<close>, \<^verbatim>\<open>isNodeIntersecting(a, b)\<close> and
  \<^verbatim>\<open>isNodeIntersecting(b, a)\<close> return the same boolean.
\<close>

theorem isNodeIntersecting_commute:
  "isNodeIntersecting a b = isNodeIntersecting b a"
  unfolding isNodeIntersecting_def Let_def by auto

end
